theory Spec2Isabelle
  imports Complex_Main "HOL-Library.Word"
begin

unbundle bit_operations_syntax

section \<open>The L1 data fee of core/types/rollup\_l1\_cost.go\<close>

text \<open>
  The file core/types/rollup\_l1\_cost.go is present in two revisions. The earlier one
  (lines 17 to 93) charges a transaction by its counts of zero and non-zero bytes; the
  later one (lines 111 to 270) keeps the bytes themselves and, once Eclipse is active,
  charges by the FastLZ length estimate \<open>FlzCompressLen\<close>. Definitions of the earlier
  revision carry the suffix \<open>0\<close>; all others embed the later revision.

  Go's \<open>uint32\<close> and \<open>uint64\<close> are \<open>32 word\<close> and \<open>64 word\<close>, \<open>*big.Int\<close> is \<open>int\<close>,
  a byte slice is a list of \<open>8 word\<close>. A run-time panic is the value \<open>Inl\<close> of a sum,
  and a loop that may not return yields \<open>None\<close>.
\<close>

type_synonym byte = "8 word"
type_synonym uint32 = "32 word"
type_synonym uint64 = "64 word"

datatype error = IndexOutOfRange

subsection \<open>Constants of package params\<close>

text \<open>
  Modelled from the spec: the constants \<open>params.TxDataZeroGas\<close> and
  \<open>params.TxDataNonZeroGasEIP2028\<close> are declared in package params, which is not among
  the sources; the specification gives them as \<open>ZERO_BYTE_GAS = 4\<close> and
  \<open>NON_ZERO_BYTE_GAS = 16\<close>.
\<close>

definition TxDataZeroGas :: uint64 where
  "TxDataZeroGas = 4"

definition TxDataNonZeroGasEIP2028 :: uint64 where
  "TxDataNonZeroGasEIP2028 = 16"

text \<open>
  Of \<open>*params.ChainConfig\<close> the fee function uses three things: whether the field
  \<open>Optimism\<close> is non-nil, and the methods \<open>IsRegolith\<close> and \<open>IsEclipse\<close> of a block
  time. The methods are declared in package params; they are fields of the record here.
\<close>

record ChainConfig =
  Optimism :: bool
  IsRegolith :: "uint64 \<Rightarrow> bool"
  IsEclipse :: "uint64 \<Rightarrow> bool"

subsection \<open>\<open>big.Int\<close> division\<close>

text \<open>
  \<open>(*big.Int).Div\<close> is Euclidean division: the remainder is never negative. It panics
  on a zero divisor; the only divisor of this file is the constant 1000000.
\<close>

definition big_Div :: "int \<Rightarrow> int \<Rightarrow> int" where
  "big_Div x y = (if 0 < y then x div y else - (x div (- y)))"

subsection \<open>Earlier revision: counting bytes ahead of time\<close>

record L1CostData0 =
  zeroes0 :: uint64
  ones0 :: uint64

definition count_byte0 :: "byte \<Rightarrow> L1CostData0 \<Rightarrow> L1CostData0" where
  "count_byte0 b out =
     (if b = 0 then out\<lparr>zeroes0 := zeroes0 out + 1\<rparr> else out\<lparr>ones0 := ones0 out + 1\<rparr>)"

definition NewL1CostData0 :: "byte list \<Rightarrow> L1CostData0" where
  "NewL1CostData0 data = fold count_byte0 data \<lparr>zeroes0 = 0, ones0 = 0\<rparr>"

definition newL1CostFunc0 ::
  "ChainConfig \<Rightarrow> int \<Rightarrow> int \<Rightarrow> int \<Rightarrow> uint64 \<Rightarrow> L1CostData0 \<Rightarrow> (int \<times> int) option" where
  "newL1CostFunc0 config l1BaseFee overhead scalar blockTime l1CostData =
     (let isRegolith = IsRegolith config blockTime in
      if \<not> Optimism config then None
      else
        let gas = zeroes0 l1CostData * TxDataZeroGas;
            gas = (if isRegolith
                   then gas + ones0 l1CostData * TxDataNonZeroGasEIP2028
                   else gas + (ones0 l1CostData + 68) * TxDataNonZeroGasEIP2028);
            l1GasUsed = uint gas;
            l1GasUsed = l1GasUsed + overhead;
            l1Cost = big_Div (l1GasUsed * l1BaseFee * scalar) 1000000
        in Some (l1Cost, l1GasUsed))"

subsection \<open>The FastLZ length estimate\<close>

text \<open>Reading \<open>ib[k]\<close> panics when \<open>k\<close> is not below \<open>len(ib)\<close>.\<close>

definition byte_at :: "byte list \<Rightarrow> uint32 \<Rightarrow> error + byte" where
  "byte_at ib k = (if unat k < length ib then Inr (ib ! unat k) else Inl IndexOutOfRange)"

text \<open>The closure \<open>u32\<close>: four bytes from \<open>i\<close>, little-endian; the index sums wrap.\<close>

definition u32 :: "byte list \<Rightarrow> uint32 \<Rightarrow> error + uint32" where
  "u32 ib i =
     (case byte_at ib i of Inl e \<Rightarrow> Inl e | Inr b0 \<Rightarrow>
       (case byte_at ib (i + 1) of Inl e \<Rightarrow> Inl e | Inr b1 \<Rightarrow>
         (case byte_at ib (i + 2) of Inl e \<Rightarrow> Inl e | Inr b2 \<Rightarrow>
           (case byte_at ib (i + 3) of Inl e \<Rightarrow> Inl e | Inr b3 \<Rightarrow>
              Inr (ucast b0 OR push_bit 8 (ucast b1) OR push_bit 16 (ucast b2)
                     OR push_bit 24 (ucast b3))))))"

definition hash :: "uint32 \<Rightarrow> uint32" where
  "hash x = drop_bit 19 (2654435769 * x) AND 8191"

text \<open>The closure \<open>literals\<close> adds to the counter \<open>n\<close>; here it returns the new \<open>n\<close>.\<close>

definition literals :: "uint32 \<Rightarrow> uint32 \<Rightarrow> uint32" where
  "literals r n =
     (let n = n + 33 * (r div 32);
          r = r mod 32
      in if r \<noteq> 0 then n + (r + 1) else n)"

text \<open>The local \<open>m\<close>, never assigned after its declaration.\<close>

definition flz_m :: uint32 where
  "flz_m = 0xffffff"

text \<open>
  The variables \<open>n\<close>, \<open>a\<close>, \<open>i\<close>, \<open>d\<close>, \<open>r\<close> and \<open>ht\<close> of \<open>FlzCompressLen\<close>, which its
  loops assign. The prefix keeps the one-letter names free for variables.
\<close>

record flz =
  flz_n :: uint32
  flz_a :: uint32
  flz_i :: uint32
  flz_d :: uint32
  flz_r :: uint32
  flz_ht :: "uint32 list"

text \<open>
  The first half of a round of the inner loop (lines 227 to 235): read the window at the
  cursor, look its hash up, record the cursor in the table, and read the comparison value
  \<open>c\<close>. It returns the variables with \<open>s\<close> and \<open>c\<close>.
\<close>

definition probe :: "byte list \<Rightarrow> flz \<Rightarrow> error + (flz \<times> uint32 \<times> uint32)" where
  "probe ib st =
     (case u32 ib (flz_i st) of Inl e \<Rightarrow> Inl e | Inr w \<Rightarrow>
       (let s = w AND flz_m;
            h = hash s;
            st = st\<lparr>flz_r := flz_ht st ! unat h\<rparr>;
            st = st\<lparr>flz_ht := (flz_ht st)[unat h := flz_i st]\<rparr>;
            st = st\<lparr>flz_d := flz_i st - flz_r st\<rparr>;
            c = (if flz_d st < 8192
                 then (case u32 ib (flz_r st) of Inl e \<Rightarrow> Inl e
                       | Inr w' \<Rightarrow> Inr (w' AND flz_m))
                 else Inr (flz_m + 1))
        in (case c of Inl e \<Rightarrow> Inl e | Inr c \<Rightarrow> Inr (st, s, c))))"

text \<open>
  The inner loop (lines 226 to 243). Beside the variables it returns \<open>s\<close> and \<open>c\<close> of
  its last round, which the source compares to leave the loop.
\<close>

function scan :: "byte list \<Rightarrow> uint32 \<Rightarrow> flz \<Rightarrow> error + (flz \<times> uint32 \<times> uint32)" where
  "scan ib b st =
     (case probe ib st of Inl e \<Rightarrow> Inl e | Inr (st, s, c) \<Rightarrow>
        if flz_i st \<ge> b - 9 then Inr (st, s, c)
        else
          let st = st\<lparr>flz_i := flz_i st + 1\<rparr>
          in if s = c then Inr (st, s, c) else scan ib b st)"
  by pat_completeness auto
termination
proof -
  have step: "unat (y - (x + 1)) < unat (y - x)" if "\<not> y \<le> x" for x y :: uint32
  proof -
    from that have nz: "y - x \<noteq> 0" by simp
    have e: "y - (x + 1) = (y - x) - 1" by simp
    have "unat ((y - x) - 1) = unat (y - x) - 1"
      using nz by (rule unat_minus_one)
    moreover have "unat (y - x) \<noteq> 0" using nz by (simp add: unat_eq_zero)
    ultimately show ?thesis unfolding e by simp
  qed
  have cursor: "flz_i st' = flz_i st" if "probe ib st = Inr (st', s, c)" for ib st st' s c
    using that by (auto simp: probe_def Let_def split: sum.splits if_splits)
  show ?thesis
  proof (relation "measure (\<lambda>(ib, b, st). unat (b - 9 - flz_i st))")
    show "wf (measure (\<lambda>(ib, b, st). unat (b - 9 - flz_i st)))" by simp
  next
    fix ib b st x st' y s c st''
    assume p: "probe ib st = Inr x" and x: "(st', y) = x" and y: "(s, c) = y"
      and far: "\<not> b - 9 \<le> flz_i st'" and upd: "st'' = st'\<lparr>flz_i := flz_i st' + 1\<rparr>"
    from p x y have "probe ib st = Inr (st', s, c)" by simp
    then have e: "flz_i st' = flz_i st" by (rule cursor)
    have "flz_i st'' = flz_i st + 1" by (simp add: upd e)
    with step [OF far] e show "((ib, b, st''), ib, b, st)
          \<in> measure (\<lambda>(ib, b, st). unat (b - 9 - flz_i st))"
      by (simp only: in_measure prod.case)
  qed
qed

text \<open>The match extension loop (lines 252 to 254); \<open>&&\<close> reads no byte once \<open>l < b-i\<close> fails.\<close>

function extend :: "byte list \<Rightarrow> uint32 \<Rightarrow> uint32 \<Rightarrow> uint32 \<Rightarrow> uint32 \<Rightarrow> error + uint32" where
  "extend ib b r i l =
     (if l < b - i
      then (case byte_at ib (r + l) of Inl e \<Rightarrow> Inl e | Inr x \<Rightarrow>
             (case byte_at ib (i + l) of Inl e \<Rightarrow> Inl e | Inr y \<Rightarrow>
                if x = y then extend ib b r i (l + 1) else Inr l))
      else Inr l)"
  by pat_completeness auto
termination
proof (relation "measure (\<lambda>(ib, b, r, i, l). unat (b - i - l))")
  show "wf (measure (\<lambda>(ib, b, r, i, l). unat (b - i - l)))" by simp
next
  fix ib :: "byte list" and b r i l :: uint32
  assume "l < b - i"
  then have nz: "b - i - l \<noteq> 0" by simp
  have e: "b - i - (l + 1) = (b - i - l) - 1" by simp
  have "unat ((b - i - l) - 1) = unat (b - i - l) - 1"
    using nz by (rule unat_minus_one)
  moreover have "unat (b - i - l) \<noteq> 0" using nz by (simp add: unat_eq_zero)
  ultimately have "unat (b - i - (l + 1)) < unat (b - i - l)"
    unfolding e by simp
  then show "((ib, b, r, i, l + 1), ib, b, r, i, l)
             \<in> measure (\<lambda>(ib, b, r, i, l). unat (b - i - l))"
    by simp
qed

text \<open>How one round of the outer loop ends: by \<open>break\<close>, or by reaching its last line.\<close>

datatype round = Break flz | Continue flz

text \<open>
  The second half of a round of the outer loop (lines 247 to 266), run when the inner
  loop has stopped at a match: step the cursor back onto the match, charge the literals
  passed since \<open>a\<close>, extend the match, charge it, and enter the two windows at its end
  into the table.
\<close>

definition found :: "byte list \<Rightarrow> uint32 \<Rightarrow> flz \<Rightarrow> error + flz" where
  "found ib b st =
     (let st = st\<lparr>flz_i := flz_i st - 1\<rparr>;
          st = (if flz_i st > flz_a st
                then st\<lparr>flz_n := literals (flz_i st - flz_a st) (flz_n st)\<rparr>
                else st)
      in
      (case extend ib b (flz_r st) (flz_i st) 3 of Inl e \<Rightarrow> Inl e | Inr l \<Rightarrow>
        (let st = st\<lparr>flz_i := flz_i st + (l - 2)\<rparr>
         in
         (case u32 ib (flz_i st) of Inl e \<Rightarrow> Inl e | Inr s \<Rightarrow>
           (let st = st\<lparr>flz_d := flz_d st - 1\<rparr>;
                st = st\<lparr>flz_n := flz_n st + 3 * (1 + (l - 3) div 262)\<rparr>;
                st = (if l < 9 then st\<lparr>flz_n := flz_n st - 1\<rparr> else st);
                st = st\<lparr>flz_ht := (flz_ht st)[unat (hash (s AND flz_m)) := flz_i st]\<rparr>;
                st = st\<lparr>flz_i := flz_i st + 1\<rparr>;
                st = st\<lparr>flz_ht := (flz_ht st)[unat (hash (drop_bit 8 s)) := flz_i st]\<rparr>;
                st = st\<lparr>flz_i := flz_i st + 1\<rparr>;
                st = st\<lparr>flz_a := flz_i st\<rparr>
            in Inr st)))))"

text \<open>
  One round of the outer loop (lines 226 to 266): the inner loop, then either the
  \<open>break\<close> of line 245 or the charges of \<open>found\<close>.
\<close>

definition round_body :: "byte list \<Rightarrow> uint32 \<Rightarrow> flz \<Rightarrow> error + round" where
  "round_body ib b st =
     (case scan ib b st of Inl e \<Rightarrow> Inl e | Inr (st, s, c) \<Rightarrow>
        if flz_i st \<ge> b - 9 then Inr (Break st)
        else (case found ib b st of Inl e \<Rightarrow> Inl e | Inr st \<Rightarrow> Inr (Continue st)))"

text \<open>
  The outer loop (lines 225 to 267). With a slice of more than \<open>2^32\<close> bytes the
  cursor can wrap around and the loop need not end, so it is a partial function.
\<close>

declare scan.simps [simp del]

declare extend.simps [simp del]

partial_function (option) rounds :: "byte list \<Rightarrow> uint32 \<Rightarrow> flz \<Rightarrow> (error + flz) option" where
  "rounds ib b st =
     (if flz_i st < b - 9
      then (case round_body ib b st of
              Inl e \<Rightarrow> Some (Inl e)
            | Inr (Break st') \<Rightarrow> Some (Inr st')
            | Inr (Continue st') \<Rightarrow> rounds ib b st')
      else Some (Inr st))"

declare rounds.simps [code]

text \<open>The variables as declared in lines 204 to 211; the table of 8192 zeros.\<close>

definition flz_init :: flz where
  "flz_init =
     \<lparr>flz_n = 0, flz_a = 0, flz_i = 2, flz_d = 0, flz_r = 0, flz_ht = replicate 8192 0\<rparr>"

definition FlzCompressLen :: "byte list \<Rightarrow> (error + uint32) option" where
  "FlzCompressLen ib =
     (let b = word_of_nat (length ib) - 4
      in case rounds ib b flz_init of
           None \<Rightarrow> None
         | Some (Inl e) \<Rightarrow> Some (Inl e)
         | Some (Inr st) \<Rightarrow> Some (Inr (literals (b + 4 - flz_a st) (flz_n st))))"

subsection \<open>Later revision: the fee function\<close>

text \<open>The counting loop of lines 176 to 184, from \<open>zeroes\<close> and \<open>ones\<close> so far.\<close>

fun count_bytes :: "byte list \<Rightarrow> uint64 \<Rightarrow> uint64 \<Rightarrow> uint64 \<times> uint64" where
  "count_bytes [] zeroes ones = (zeroes, ones)"
| "count_bytes (b # data) zeroes ones =
     (if b = 0 then count_bytes data (zeroes + 1) ones
      else count_bytes data zeroes (ones + 1))"

text \<open>
  Lines 172 to 191: the gas of the payload. \<open>nil, nil\<close> of the Go function is \<open>None\<close>
  below, a pair of numbers is \<open>Some (fee, gasUsed)\<close>.
\<close>

definition l1_gas :: "bool \<Rightarrow> bool \<Rightarrow> byte list \<Rightarrow> (error + uint64) option" where
  "l1_gas isRegolith isEclipse data =
     (if isEclipse
      then (case FlzCompressLen data of
              None \<Rightarrow> None
            | Some (Inl e) \<Rightarrow> Some (Inl e)
            | Some (Inr k) \<Rightarrow> Some (Inr (ucast k * TxDataNonZeroGasEIP2028)))
      else
        (case count_bytes data 0 0 of (zeroes, ones) \<Rightarrow>
           let gas = zeroes * TxDataZeroGas
           in if isRegolith
              then Some (Inr (gas + ones * TxDataNonZeroGasEIP2028))
              else Some (Inr (gas + (ones + 68) * TxDataNonZeroGasEIP2028))))"

definition newL1CostFunc ::
  "ChainConfig \<Rightarrow> int \<Rightarrow> int \<Rightarrow> int \<Rightarrow> uint64 \<Rightarrow> byte list
     \<Rightarrow> (error + (int \<times> int) option) option" where
  "newL1CostFunc config l1BaseFee overhead scalar blockTime data =
     (let isRegolith = IsRegolith config blockTime;
          isEclipse = IsEclipse config blockTime
      in if \<not> Optimism config then Some (Inr None)
         else
           case l1_gas isRegolith isEclipse data of
             None \<Rightarrow> None
           | Some (Inl e) \<Rightarrow> Some (Inl e)
           | Some (Inr gas) \<Rightarrow>
               let l1GasUsed = uint gas;
                   l1GasUsed = l1GasUsed + overhead;
                   l1Cost = big_Div (l1GasUsed * l1BaseFee * scalar) 1000000
               in Some (Inr (Some (l1Cost, l1GasUsed))))"

subsection \<open>The specification's byte counts\<close>

text \<open>
  The specification's ByteCostCounter (section 4.1), as it is worded there: the count of
  bytes equal to zero and the count of bytes not equal to zero, as natural numbers.
\<close>

definition zeroCount_spec :: "byte list \<Rightarrow> nat" where
  "zeroCount_spec data = length (filter (\<lambda>b. b = 0) data)"

definition nonZeroCount_spec :: "byte list \<Rightarrow> nat" where
  "nonZeroCount_spec data = length (filter (\<lambda>b. b \<noteq> 0) data)"

subsection \<open>The specification's cost rules\<close>

text \<open>
  The literal-cost rule and the match-cost rule of the specification (section 4.2, items
  6 and 7), as they are worded there, on natural numbers: a run of \<open>r\<close> literals costs
  \<open>33 * (r / 32)\<close> plus, for a non-zero remainder, the remainder plus one; a match of
  length \<open>l\<close> costs \<open>3 * (1 + (l - 3) / 262)\<close>, less one when \<open>l < 9\<close>.
\<close>

definition literal_cost_spec :: "nat \<Rightarrow> nat" where
  "literal_cost_spec r = 33 * (r div 32) + (if r mod 32 \<noteq> 0 then r mod 32 + 1 else 0)"

definition match_cost_spec :: "nat \<Rightarrow> nat" where
  "match_cost_spec l = 3 * (1 + (l - 3) div 262) - (if l < 9 then 1 else 0)"

subsection \<open>The transaction and the configuration of TestRollupGasData\<close>

text \<open>
  Modelled from the spec: the test passes \<open>emptyTx.L1CostData()\<close>, and neither
  \<open>NewTransaction\<close> nor the transaction's binary encoding is among the sources. The
  specification calls the input an empty-data transaction. Its bytes here are the RLP
  list of the nine fields of the legacy transaction that the test builds (nonce 0, gas
  price 0, gas limit 0, the recipient \<open>095e7baea6a6c7c4c2dfeb977efac326af552d87\<close>, value 0,
  no data, and the three signature values 0): a list header, \<open>0x80\<close> for each empty
  field and \<open>0x94\<close> before the 20 bytes of the recipient.
\<close>

definition emptyTx_data :: "byte list" where
  "emptyTx_data =
     [0xdd, 0x80, 0x80, 0x80,
      0x94, 0x09, 0x5e, 0x7b, 0xae, 0xa6, 0xa6, 0xc7, 0xc4, 0xc2, 0xdf, 0xeb,
            0x97, 0x7e, 0xfa, 0xc3, 0x26, 0xaf, 0x55, 0x2d, 0x87,
      0x80, 0x80, 0x80, 0x80, 0x80]"

text \<open>
  The test's configuration: \<open>Optimism\<close> set, \<open>RegolithTime\<close> 1 (so Regolith is active
  from block time 1 on), and no Eclipse time.
\<close>

definition test_cfg :: ChainConfig where
  "test_cfg = \<lparr>Optimism = True, IsRegolith = (\<lambda>t. 1 \<le> t), IsEclipse = (\<lambda>t. False)\<rparr>"

section \<open>Properties\<close>

subsection \<open>Division by the constant\<close>

lemma big_Div_floor: "big_Div x 1000000 = \<lfloor>real_of_int x / 1000000\<rfloor>"
  using floor_divide_of_int_eq [of x 1000000, where ?'a = real]
  by (simp add: big_Div_def)

subsection \<open>Counting bytes\<close>

lemma count_bytes_acc:
  "count_bytes data z k =
     (z + word_of_nat (zeroCount_spec data), k + word_of_nat (nonZeroCount_spec data))"
  by (induction data arbitrary: z k) (simp_all add: zeroCount_spec_def nonZeroCount_spec_def)

lemma counts_total: "zeroCount_spec data + nonZeroCount_spec data = length data"
  unfolding zeroCount_spec_def nonZeroCount_spec_def
  using sum_length_filter_compl [of "\<lambda>b. b = 0" data] by simp

text \<open>
  Claim C3. Before Eclipse, a payload with \<open>z\<close> zero bytes and \<open>o\<close> other bytes has
  gas \<open>z * 4 + o * 16\<close> under Regolith and \<open>z * 4 + (o + 68) * 16\<close> before it. The
  gas is a \<open>uint64\<close>: it is that number modulo \<open>2^64\<close>, and the number itself for
  every payload of fewer than \<open>2^59\<close> bytes.
\<close>

theorem byte_count_gas:
  "(\<exists>g. l1_gas True False data = Some (Inr g)
        \<and> unat g = (zeroCount_spec data * 4 + nonZeroCount_spec data * 16) mod 2 ^ 64
        \<and> (length data < 2 ^ 59 \<longrightarrow>
               unat g = zeroCount_spec data * 4 + nonZeroCount_spec data * 16))
   \<and> (\<exists>g. l1_gas False False data = Some (Inr g)
        \<and> unat g = (zeroCount_spec data * 4 + (nonZeroCount_spec data + 68) * 16) mod 2 ^ 64
        \<and> (length data < 2 ^ 59 \<longrightarrow>
               unat g = zeroCount_spec data * 4 + (nonZeroCount_spec data + 68) * 16))"
proof -
  let ?z = "zeroCount_spec data" and ?k = "nonZeroCount_spec data"
  have g1: "l1_gas True False data = Some (Inr (word_of_nat (?z * 4 + ?k * 16)))"
    by (simp add: l1_gas_def count_bytes_acc TxDataZeroGas_def TxDataNonZeroGasEIP2028_def)
  have g0: "l1_gas False False data = Some (Inr (word_of_nat (?z * 4 + (?k + 68) * 16)))"
    by (simp add: l1_gas_def count_bytes_acc TxDataZeroGas_def TxDataNonZeroGasEIP2028_def)
  define G1 :: uint64 where "G1 = word_of_nat (?z * 4 + ?k * 16)"
  define G0 :: uint64 where "G0 = word_of_nat (?z * 4 + (?k + 68) * 16)"
  have u: "unat (word_of_nat x :: uint64) = x mod 2 ^ 64" for x
    by (simp add: unat_of_nat)
  have u1: "unat G1 = (?z * 4 + ?k * 16) mod 2 ^ 64"
    unfolding G1_def by (rule u)
  have u0: "unat G0 = (?z * 4 + (?k + 68) * 16) mod 2 ^ 64"
    unfolding G0_def by (rule u)
  have small: "?z * 4 + (?k + 68) * 16 < 2 ^ 64" if "length data < 2 ^ 59"
    using that counts_total [of data] by simp
  have s0: "length data < 2 ^ 59 \<longrightarrow> unat G0 = ?z * 4 + (?k + 68) * 16"
    using small u0 by simp
  have s1: "length data < 2 ^ 59 \<longrightarrow> unat G1 = ?z * 4 + ?k * 16"
  proof
    assume "length data < 2 ^ 59"
    from small [OF this] have "?z * 4 + ?k * 16 < 2 ^ 64" by simp
    with u1 show "unat G1 = ?z * 4 + ?k * 16" by simp
  qed
  from g1 g0 u1 u0 s1 s0 show ?thesis
    unfolding G1_def [symmetric] G0_def [symmetric] by blast
qed

theorem byte_count_gas_witness:
  "length [0, 1, 2 :: byte] < 2 ^ 59
   \<and> (\<exists>g. l1_gas True False [0, 1, 2] = Some (Inr g) \<and> unat g = 36)
   \<and> (\<exists>g. l1_gas False False [0, 1, 2] = Some (Inr g) \<and> unat g = 1124)"
  using byte_count_gas [of "[0, 1, 2]"]
  by (simp add: zeroCount_spec_def nonZeroCount_spec_def)

subsection \<open>The hash\<close>

text \<open>
  Claim C5. For every 32-bit \<open>x\<close> the hash is \<open>((2654435769 * x) mod 2^32) >> 19\<close>,
  reduced modulo the 8192 entries of the table: the product wraps at 32 bits.
\<close>

theorem hash_is_wrapped_product_shifted:
  "unat (hash x) = ((2654435769 * unat x) mod 2 ^ 32 div 2 ^ 19) mod 8192"
proof -
  have m: "(8191 :: uint32) = mask 13" by (simp add: mask_eq_exp_minus_1)
  have "unat (hash x) = unat (drop_bit 19 (2654435769 * x)) mod 2 ^ 13"
    unfolding hash_def m
    by (simp flip: take_bit_eq_mask add: unsigned_take_bit_eq take_bit_eq_mod unat_mod_distrib)
  also have "unat (drop_bit 19 (2654435769 * x)) = unat (2654435769 * x) div 2 ^ 19"
    by (simp add: drop_bit_eq_div unat_div_distrib)
  also have "unat (2654435769 * x) = (2654435769 * unat x) mod 2 ^ 32"
    by (simp add: unat_word_ariths)
  finally show ?thesis by simp
qed

lemma hash_in_table: "unat (hash x) < 8192"
proof -
  have "hash x \<le> 8191" unfolding hash_def by (rule word_and_le1)
  then have "unat (hash x) \<le> unat (8191 :: uint32)" by (simp only: word_le_nat_alt)
  then show ?thesis by simp
qed

subsection \<open>The feature gate\<close>

text \<open>
  Claim C8. With the feature gate off (\<open>config.Optimism\<close> is nil) the calculator returns
  the outcome \<open>nil, nil\<close>, whatever the payload and the parameters: a normal return, not a
  panic, and not a pair with fee 0. Both revisions do so.
\<close>

theorem gate_off_not_applicable:
  "newL1CostFunc (config\<lparr>Optimism := False\<rparr>) l1BaseFee overhead scalar blockTime data
     = Some (Inr None)
   \<and> newL1CostFunc (config\<lparr>Optimism := False\<rparr>) l1BaseFee overhead scalar blockTime data
     \<noteq> Some (Inr (Some (0, gasUsed)))
   \<and> newL1CostFunc0 (config\<lparr>Optimism := False\<rparr>) l1BaseFee overhead scalar blockTime cd
     = None"
  by (simp add: newL1CostFunc_def newL1CostFunc0_def)

subsection \<open>The reference vectors\<close>

text \<open>
  Claim C9. Before Eclipse, with \<open>l1BaseFee = 1\<close>, \<open>overhead = 1\<close>, \<open>scalar = 1000000\<close>
  and the empty-data transaction of the test, the fee is 1569 at block time 0 (Regolith
  inactive) and 481 at block time 1 (Regolith active), in the earlier revision, which the
  test runs, and in the later one.
\<close>

theorem reference_vectors:
  "newL1CostFunc0 test_cfg 1 1 1000000 0 (NewL1CostData0 emptyTx_data) = Some (1569, 1569)
   \<and> newL1CostFunc0 test_cfg 1 1 1000000 1 (NewL1CostData0 emptyTx_data) = Some (481, 481)
   \<and> newL1CostFunc test_cfg 1 1 1000000 0 emptyTx_data = Some (Inr (Some (1569, 1569)))
   \<and> newL1CostFunc test_cfg 1 1 1000000 1 emptyTx_data = Some (Inr (Some (481, 481)))"
  by (simp add: newL1CostFunc_def newL1CostFunc0_def NewL1CostData0_def count_byte0_def
        l1_gas_def test_cfg_def emptyTx_data_def big_Div_def
        TxDataZeroGas_def TxDataNonZeroGasEIP2028_def)

subsection \<open>Monotonicity\<close>

lemma fee_mono:
  fixes u u' :: int
  assumes "u * p * q \<le> u' * p' * q'"
  shows "big_Div (u * p * q) 1000000 \<le> big_Div (u' * p' * q') 1000000"
  using assms by (simp add: big_Div_def zdiv_mono1)

text \<open>
  Claim C10. Fix the payload and the flags, with the gate on, and let the calculator
  return \<open>(fee, used)\<close> for non-negative oracle parameters. With a larger overhead it
  returns a pair in which neither the fee nor the gas used is smaller; with a larger
  \<open>l1BaseFee\<close>, or a larger scalar, it returns the same gas used and a fee that is not
  smaller.
\<close>

theorem fee_monotone_in_oracle_parameters:
  assumes res: "newL1CostFunc config l1BaseFee overhead scalar blockTime data
                  = Some (Inr (Some (fee, used)))"
    and nonneg: "0 \<le> l1BaseFee" "0 \<le> overhead" "0 \<le> scalar"
  shows "(overhead \<le> overhead' \<longrightarrow>
            (\<exists>fee' used'. newL1CostFunc config l1BaseFee overhead' scalar blockTime data
                 = Some (Inr (Some (fee', used'))) \<and> fee \<le> fee' \<and> used \<le> used'))
       \<and> (l1BaseFee \<le> l1BaseFee' \<longrightarrow>
            (\<exists>fee'. newL1CostFunc config l1BaseFee' overhead scalar blockTime data
                 = Some (Inr (Some (fee', used))) \<and> fee \<le> fee'))
       \<and> (scalar \<le> scalar' \<longrightarrow>
            (\<exists>fee'. newL1CostFunc config l1BaseFee overhead scalar' blockTime data
                 = Some (Inr (Some (fee', used))) \<and> fee \<le> fee'))"
proof -
  from res obtain gas where on: "Optimism config"
    and gas: "l1_gas (IsRegolith config blockTime) (IsEclipse config blockTime) data
                = Some (Inr gas)"
    and used: "used = uint gas + overhead"
    and fee: "fee = big_Div (used * l1BaseFee * scalar) 1000000"
    by (auto simp: newL1CostFunc_def Let_def split: if_splits option.splits sum.splits)
  have u0: "0 \<le> used" using used nonneg by simp
  have a: "used * l1BaseFee * scalar \<le> (uint gas + overhead') * l1BaseFee * scalar"
    if "overhead \<le> overhead'"
    using that nonneg used by (simp add: mult_right_mono)
  have b: "used * l1BaseFee * scalar \<le> used * l1BaseFee' * scalar"
    if "l1BaseFee \<le> l1BaseFee'"
    using that nonneg u0 by (simp add: mult_left_mono mult_right_mono)
  have c: "used * l1BaseFee * scalar \<le> used * l1BaseFee * scalar'"
    if "scalar \<le> scalar'"
    using that nonneg u0 by (simp add: mult_left_mono)
  show ?thesis
    using on gas used fee fee_mono [OF a] fee_mono [OF b] fee_mono [OF c]
    by (simp add: newL1CostFunc_def Let_def)
qed

theorem fee_monotone_in_oracle_parameters_witness:
  "newL1CostFunc test_cfg 2 3 500000 1 [1] = Some (Inr (Some (19, 19)))
   \<and> (0::int) \<le> 2 \<and> (0::int) \<le> 3 \<and> (0::int) \<le> 500000
   \<and> (3::int) \<le> 4 \<and> (2::int) \<le> 3 \<and> (500000::int) \<le> 600000
   \<and> (\<exists>fee' used'. newL1CostFunc test_cfg 2 4 500000 1 [1] = Some (Inr (Some (fee', used')))
          \<and> 19 \<le> fee' \<and> 19 \<le> used')
   \<and> (\<exists>fee'. newL1CostFunc test_cfg 3 3 500000 1 [1] = Some (Inr (Some (fee', 19)))
          \<and> 19 \<le> fee')
   \<and> (\<exists>fee'. newL1CostFunc test_cfg 2 3 600000 1 [1] = Some (Inr (Some (fee', 19)))
          \<and> 19 \<le> fee')"
proof -
  have h: "newL1CostFunc test_cfg 2 3 500000 1 [1] = Some (Inr (Some (19, 19)))"
    by (simp add: newL1CostFunc_def l1_gas_def test_cfg_def big_Div_def
          TxDataZeroGas_def TxDataNonZeroGasEIP2028_def)
  from fee_monotone_in_oracle_parameters [OF h, of 4 3 600000] h
  show ?thesis by simp
qed

subsection \<open>Facts about the loops of the length estimate\<close>

lemma unat_succ: "unat (x + 1) = unat x + 1" if "x < y" for x y :: uint32
proof -
  from that have "unat x < unat y" by (simp add: word_less_nat_alt)
  moreover have "unat y < 2 ^ 32" using unsigned_less [of y, where ?'a = nat] by simp
  ultimately have "unat x + unat (1 :: uint32) < 2 ^ LENGTH(32)" by simp
  then have "unat (x + 1) = unat x + unat (1 :: uint32)" by (simp only: unat_add_lem)
  then show ?thesis by simp
qed

lemma unat_add_small:
  "unat (x + y) = unat x + unat y" if "unat x + unat y < 4294967296" for x y :: uint32
  using that unat_add_lem [of x y] by simp

lemma unat_add_of_nat: "unat (x + word_of_nat k :: uint32) = (unat x + k) mod 2 ^ 32"
  by (simp add: unat_word_ariths unat_of_nat mod_add_right_eq)

lemma byte_at_Inr: "byte_at ib k = Inr x \<Longrightarrow> unat k < length ib"
  by (simp add: byte_at_def split: if_splits)

lemma u32_Inr:
  assumes "u32 ib p = Inr w"
  shows "unat p < length ib" and "unat (p + 3) < length ib"
  using assms
  by (auto simp: u32_def split: sum.splits dest: byte_at_Inr)

text \<open>No window masked with \<open>m\<close> equals \<open>m + 1\<close>.\<close>

lemma window_below_wide: "w AND flz_m \<noteq> flz_m + 1"
proof
  assume e: "w AND flz_m = flz_m + 1"
  have "w AND flz_m \<le> flz_m" by (rule word_and_le1)
  with e have "flz_m + 1 \<le> flz_m" by simp
  then show False by (simp add: flz_m_def)
qed

lemma probe_Inr:
  assumes "probe ib st = Inr (st', s, c)"
  shows "flz_i st' = flz_i st" "flz_n st' = flz_n st" "flz_a st' = flz_a st"
    "flz_r st' = flz_ht st ! unat (hash s)"
    "flz_d st' = flz_i st - flz_r st'"
    "\<exists>w. u32 ib (flz_i st) = Inr w \<and> s = w AND flz_m"
    "flz_d st' < 8192 \<Longrightarrow> \<exists>w'. u32 ib (flz_r st') = Inr w' \<and> c = w' AND flz_m"
    "\<not> flz_d st' < 8192 \<Longrightarrow> c = flz_m + 1"
  using assms by (auto simp: probe_def Let_def split: sum.splits if_splits)

text \<open>
  What the inner loop leaves behind. It charges nothing. If it stops before the margin it
  stopped at a match, whose distance is below 8192; if the distance of its last round is
  not below 8192, it stopped at the margin.
\<close>

lemma scan_Inr:
  assumes "scan ib b st = Inr (st', s, c)"
  shows "flz_n st' = flz_n st \<and> flz_a st' = flz_a st
     \<and> (\<exists>w. s = w AND flz_m)
     \<and> (flz_i st' < b - 9 \<longrightarrow>
            s = c \<and> flz_d st' < 8192 \<and> flz_d st' = flz_i st' - 1 - flz_r st')
     \<and> (\<not> flz_d st' < 8192 \<longrightarrow> c = flz_m + 1 \<and> b - 9 \<le> flz_i st'
            \<and> flz_d st' = flz_i st' - flz_r st')"
  using assms
proof (induction ib b st arbitrary: st' s c rule: scan.induct)
  case (1 ib b st)
  from "1.prems" obtain st1 s1 c1 where p: "probe ib st = Inr (st1, s1, c1)"
    by (subst (asm) scan.simps) (auto split: sum.splits)
  note pf = probe_Inr [OF p]
  show ?case
  proof (cases "b - 9 \<le> flz_i st1")
    case True
    with "1.prems" p have "st' = st1" "s = s1" "c = c1"
      by (subst (asm) scan.simps, simp)+
    with True pf show ?thesis by auto
  next
    case far: False
    show ?thesis
    proof (cases "s1 = c1")
      case True
      with far "1.prems" p have e: "st' = st1\<lparr>flz_i := flz_i st1 + 1\<rparr>" "s = s1" "c = c1"
        by (subst (asm) scan.simps, simp)+
      have "flz_d st1 < 8192"
      proof (rule ccontr)
        assume "\<not> flz_d st1 < 8192"
        then have w: "c1 = flz_m + 1" by (rule pf(8))
        from pf(6) obtain x where "s1 = x AND flz_m" by blast
        with True w have "x AND flz_m = flz_m + 1" by simp
        then show False by (rule window_below_wide [THEN notE])
      qed
      with e True pf show ?thesis by auto
    next
      case False
      with far "1.prems" p
      have "scan ib b (st1\<lparr>flz_i := flz_i st1 + 1\<rparr>) = Inr (st', s, c)"
        by (subst (asm) scan.simps) simp
      note ih = "1.IH" [OF p refl refl far refl False this]
      have n2: "flz_n (st1\<lparr>flz_i := flz_i st1 + 1\<rparr>) = flz_n st" using pf(2) by simp
      have a2: "flz_a (st1\<lparr>flz_i := flz_i st1 + 1\<rparr>) = flz_a st" using pf(3) by simp
      from ih show ?thesis unfolding n2 a2 .
    qed
  qed
qed

text \<open>The inner loop stops at, or one past, a cursor whose window it could read.\<close>

lemma scan_pos:
  assumes "scan ib b st = Inr (st', s, c)"
  shows "\<exists>p w. u32 ib p = Inr w \<and> unat (flz_i st) \<le> unat p
           \<and> ((flz_i st' = p \<and> b - 9 \<le> p) \<or> (flz_i st' = p + 1 \<and> p < b - 9))"
  using assms
proof (induction ib b st arbitrary: st' s c rule: scan.induct)
  case (1 ib b st)
  from "1.prems" obtain st1 s1 c1 where p: "probe ib st = Inr (st1, s1, c1)"
    by (subst (asm) scan.simps) (auto split: sum.splits)
  note pf = probe_Inr [OF p]
  from pf(6) obtain w where w: "u32 ib (flz_i st) = Inr w" by blast
  show ?case
  proof (cases "b - 9 \<le> flz_i st1")
    case True
    with "1.prems" p have "st' = st1"
      by (subst (asm) scan.simps) simp
    with True pf(1) w show ?thesis by auto
  next
    case far: False
    show ?thesis
    proof (cases "s1 = c1")
      case True
      with far "1.prems" p have e: "st' = st1\<lparr>flz_i := flz_i st1 + 1\<rparr>"
        by (subst (asm) scan.simps) simp
      have "flz_i st' = flz_i st + 1 \<and> flz_i st < b - 9" using e far pf(1) by simp
      with w show ?thesis by blast
    next
      case False
      with far "1.prems" p
      have "scan ib b (st1\<lparr>flz_i := flz_i st1 + 1\<rparr>) = Inr (st', s, c)"
        by (subst (asm) scan.simps) simp
      from "1.IH" [OF p refl refl far refl False this]
      obtain q w' where q: "u32 ib q = Inr w'" "unat (flz_i st + 1) \<le> unat q"
        "(flz_i st' = q \<and> b - 9 \<le> q) \<or> (flz_i st' = q + 1 \<and> q < b - 9)"
        using pf(1) by auto
      from far pf(1) have "flz_i st < b - 9" by simp
      then have "unat (flz_i st + 1) = unat (flz_i st) + 1" by (rule unat_succ)
      with q(2) have "unat (flz_i st) \<le> unat q" by simp
      with q(1,3) show ?thesis by blast
    qed
  qed
qed

lemma extend_ge: "extend ib b r i l0 = Inr l \<Longrightarrow> l0 \<le> l"
proof (induction ib b r i l0 rule: extend.induct)
  case (1 ib b r i l0)
  show ?case
  proof (cases "l0 < b - i")
    case True
    then have "l0 \<le> l0 + 1" by (simp add: word_le_nat_alt unat_succ)
    with 1 True show ?thesis
      by (subst (asm) (2) extend.simps) (auto split: sum.splits if_splits)
  next
    case False
    with "1.prems" show ?thesis by (subst (asm) extend.simps) simp
  qed
qed

text \<open>The extension loop reads \<open>ib[i + l]\<close> before it steps \<open>l\<close>, so \<open>i + l\<close> stays in the slice.\<close>

lemma extend_bound:
  assumes "extend ib b r i l0 = Inr l" and "unat i + unat l0 \<le> N" and "length ib \<le> N"
    and "N < 4294967296"
  shows "unat i + unat l \<le> N"
  using assms
proof (induction ib b r i l0 rule: extend.induct)
  case (1 ib b r i l0)
  show ?case
  proof (cases "l0 < b - i")
    case False
    with "1.prems" show ?thesis by (subst (asm) extend.simps) simp
  next
    case True
    from True "1.prems"(1) obtain x where x: "byte_at ib (r + l0) = Inr x"
      by (subst (asm) extend.simps) (cases "byte_at ib (r + l0)", simp_all)
    from True x "1.prems"(1) obtain y where y: "byte_at ib (i + l0) = Inr y"
      by (subst (asm) extend.simps) (cases "byte_at ib (i + l0)", simp_all)
    show ?thesis
    proof (cases "x = y")
      case False
      with True x y "1.prems"(1) have "l = l0"
        by (subst (asm) extend.simps) simp
      with "1.prems" show ?thesis by simp
    next
      case xy: True
      with True x y "1.prems"(1) have rec: "extend ib b r i (l0 + 1) = Inr l"
        by (subst (asm) extend.simps) simp
      from "1.prems" have "unat i + unat l0 < 4294967296" by simp
      then have "unat (i + l0) = unat i + unat l0" by (rule unat_add_small)
      with byte_at_Inr [OF y] "1.prems"(3) have lt: "unat i + unat l0 < N" by simp
      from True have "unat (l0 + 1) = unat l0 + 1" by (rule unat_succ)
      with lt have le: "unat i + unat (l0 + 1) \<le> N" by simp
      from "1.IH" [OF True x y xy rec le "1.prems"(3,4)] show ?thesis .
    qed
  qed
qed

lemma found_Inr:
  assumes "found ib b st1 = Inr st'"
  shows "\<exists>l w. extend ib b (flz_r st1) (flz_i st1 - 1) 3 = Inr l
           \<and> u32 ib (flz_i st1 - 1 + (l - 2)) = Inr w
           \<and> flz_i st' = flz_i st1 - 1 + (l - 2) + 2
           \<and> flz_a st' = flz_i st'
           \<and> flz_n st' =
               (let n1 = (if flz_a st1 < flz_i st1 - 1
                          then literals (flz_i st1 - 1 - flz_a st1) (flz_n st1)
                          else flz_n st1)
                in if l < 9 then n1 + 3 * (1 + (l - 3) div 262) - 1
                   else n1 + 3 * (1 + (l - 3) div 262))"
proof -
  have "\<exists>l. extend ib b (flz_r st1) (flz_i st1 - 1) 3 = Inr l"
    using assms
    by (cases "flz_a st1 < flz_i st1 - 1"; cases "extend ib b (flz_r st1) (flz_i st1 - 1) 3")
       (simp_all add: found_def Let_def)
  then obtain l where l: "extend ib b (flz_r st1) (flz_i st1 - 1) 3 = Inr l" ..
  have "\<exists>w. u32 ib (flz_i st1 - 1 + (l - 2)) = Inr w"
    using assms l
    by (cases "flz_a st1 < flz_i st1 - 1"; cases "u32 ib (flz_i st1 - 1 + (l - 2))")
       (simp_all add: found_def Let_def)
  then obtain w where w: "u32 ib (flz_i st1 - 1 + (l - 2)) = Inr w" ..
  from assms l w have "flz_i st' = flz_i st1 - 1 + (l - 2) + 2 \<and> flz_a st' = flz_i st'
     \<and> flz_n st' =
               (let n1 = (if flz_a st1 < flz_i st1 - 1
                          then literals (flz_i st1 - 1 - flz_a st1) (flz_n st1)
                          else flz_n st1)
                in if l < 9 then n1 + 3 * (1 + (l - 3) div 262) - 1
                   else n1 + 3 * (1 + (l - 3) div 262))"
    by (cases "flz_a st1 < flz_i st1 - 1"; cases "l < 9") (auto simp: found_def Let_def)
  with l w show ?thesis by blast
qed

lemma round_Break:
  assumes "round_body ib b st = Inr (Break st')"
  shows "\<exists>s c. scan ib b st = Inr (st', s, c) \<and> b - 9 \<le> flz_i st'"
  using assms
  by (auto simp: round_body_def split: sum.splits prod.splits if_splits)

lemma round_Continue:
  assumes "round_body ib b st = Inr (Continue st')"
  shows "\<exists>st1 s c. scan ib b st = Inr (st1, s, c) \<and> flz_i st1 < b - 9
           \<and> found ib b st1 = Inr st'"
  using assms
  by (auto simp: round_body_def split: sum.splits prod.splits if_splits)

text \<open>The equations that evaluate the estimate on a given slice.\<close>

lemmas flz_eval = round_body_def found_def probe_def u32_def byte_at_def hash_def
  flz_m_def literals_def Let_def scan.simps extend.simps flz_init_def

subsection \<open>Slices shorter than 13 bytes\<close>

text \<open>
  For a slice of fewer than 13 bytes \<open>b - 9\<close> wraps around to at least \<open>2^32 - 13\<close>, so
  every cursor inside the slice is before the margin.
\<close>

lemma u32_room:
  assumes "u32 ib p = Inr w" and "length ib < 13"
  shows "unat p + 3 < length ib"
proof -
  from u32_Inr [OF assms(1)] have a: "unat p < length ib" and b: "unat (p + 3) < length ib"
    by simp_all
  from a assms(2) have "unat p + unat (3 :: uint32) < 4294967296" by simp
  then have "unat (p + 3) = unat p + unat (3 :: uint32)" by (rule unat_add_small)
  with b show ?thesis by simp
qed

lemma short_margin:
  fixes p :: uint32
  assumes "length ib < 13" and "unat p < 13"
  shows "p < word_of_nat (length ib) - 4 - 9"
proof (rule ccontr)
  let ?w = "word_of_nat (length ib) - 4 - 9 :: uint32"
  assume "\<not> p < ?w"
  then have "unat ?w \<le> unat p" by (simp add: word_le_nat_alt not_less)
  with assms(2) have small: "unat ?w < 13" by simp
  then have "unat ?w + unat (13 :: uint32) < 4294967296" by simp
  then have "unat (?w + 13) = unat ?w + unat (13 :: uint32)" by (rule unat_add_small)
  moreover have "?w + 13 = word_of_nat (length ib)" by simp
  moreover have "unat (word_of_nat (length ib) :: uint32) = length ib"
    using assms(1) by (simp add: unat_of_nat)
  ultimately have "length ib = unat ?w + 13" by simp
  with assms(1) show False by simp
qed

text \<open>
  So a round on such a slice cannot end by \<open>break\<close>: it panics, or it finds a match and
  moves the cursor forward, inside the slice.
\<close>

lemma round_short:
  assumes L: "length ib < 13"
    and rb: "round_body ib (word_of_nat (length ib) - 4) st = Inr rd"
  shows "\<exists>st'. rd = Continue st' \<and> unat (flz_i st) < unat (flz_i st') \<and> unat (flz_i st') < 13"
proof -
  let ?b = "word_of_nat (length ib) - 4 :: uint32"
  have match: "flz_i st1 = p + 1 \<and> unat p + 3 < length ib \<and> unat (flz_i st) \<le> unat p
       \<and> flz_i st1 < ?b - 9"
    if sc: "scan ib ?b st = Inr (st1, s, c)"
      and p: "u32 ib p = Inr w" "unat (flz_i st) \<le> unat p"
        "(flz_i st1 = p \<and> ?b - 9 \<le> p) \<or> (flz_i st1 = p + 1 \<and> p < ?b - 9)"
    for st1 s c p w
  proof -
    from u32_room [OF p(1) L] have room: "unat p + 3 < length ib" .
    with L have "unat p < 13" by simp
    from short_margin [OF L this] have "p < ?b - 9" .
    with p(3) have i1: "flz_i st1 = p + 1" by auto
    from room L have "unat p + unat (1 :: uint32) < 4294967296" by simp
    then have "unat (p + 1) = unat p + unat (1 :: uint32)" by (rule unat_add_small)
    with room L i1 have "unat (flz_i st1) < 13" by simp
    from short_margin [OF L this] i1 room p(2) show ?thesis by simp
  qed
  show ?thesis
  proof (cases rd)
    case (Break st')
    with rb round_Break obtain s c where sc: "scan ib ?b st = Inr (st', s, c)"
      and ge: "?b - 9 \<le> flz_i st'" by blast
    from scan_pos [OF sc] obtain p w where p: "u32 ib p = Inr w" "unat (flz_i st) \<le> unat p"
        "(flz_i st' = p \<and> ?b - 9 \<le> p) \<or> (flz_i st' = p + 1 \<and> p < ?b - 9)" by blast
    from match [OF sc p] have "flz_i st' < ?b - 9" by blast
    with ge show ?thesis by (meson not_le)
  next
    case (Continue st')
    with rb round_Continue obtain st1 s c where sc: "scan ib ?b st = Inr (st1, s, c)"
      and f: "found ib ?b st1 = Inr st'" by blast
    from scan_pos [OF sc] obtain p w where p: "u32 ib p = Inr w" "unat (flz_i st) \<le> unat p"
        "(flz_i st1 = p \<and> ?b - 9 \<le> p) \<or> (flz_i st1 = p + 1 \<and> p < ?b - 9)" by blast
    from match [OF sc p] have i1: "flz_i st1 - 1 = p" and room: "unat p + 3 < length ib"
      and le: "unat (flz_i st) \<le> unat p" by simp_all
    from found_Inr [OF f] i1 obtain l w' where
      ex: "extend ib ?b (flz_r st1) p 3 = Inr l"
      and rd2: "u32 ib (p + (l - 2)) = Inr w'"
      and i': "flz_i st' = p + (l - 2) + 2" by auto
    from extend_ge [OF ex] have l3: "3 \<le> l" .
    then have ul3: "3 \<le> unat l" by (simp add: word_le_nat_alt)
    have "unat p + unat (3 :: uint32) \<le> 13" using room L by simp
    from extend_bound [OF ex this] L have pl: "unat p + unat l \<le> 13" by simp
    have "flz_i st' = p + l" using i' by simp
    moreover have "unat (p + l) = unat p + unat l"
      using pl by (intro unat_add_small) simp
    ultimately have u: "unat (flz_i st') = unat p + unat l" by simp
    have "2 \<le> l" using ul3 by (simp add: word_le_nat_alt)
    then have "unat (l - 2) = unat l - unat (2 :: uint32)" by (rule unat_sub)
    then have "unat (l - 2) = unat l - 2" by simp
    moreover have "unat (p + (l - 2)) = unat p + unat (l - 2)"
      using pl calculation by (intro unat_add_small) simp
    ultimately have "unat (p + (l - 2)) = unat p + unat l - 2" using ul3 by simp
    with u32_room [OF rd2 L] ul3 have "unat p + unat l + 1 < length ib" by simp
    with u L le ul3 Continue show ?thesis by simp
  qed
qed

lemma rounds_short:
  assumes L: "length ib < 13" and i: "unat (flz_i st) < 13"
  shows "rounds ib (word_of_nat (length ib) - 4) st = Some (Inl IndexOutOfRange)"
  using i
proof (induction "13 - unat (flz_i st)" arbitrary: st rule: less_induct)
  case less
  let ?b = "word_of_nat (length ib) - 4 :: uint32"
  from short_margin [OF L less.prems] have enter: "flz_i st < ?b - 9" .
  show ?case
  proof (cases "round_body ib ?b st")
    case (Inl e)
    with enter show ?thesis by (subst rounds.simps) (cases e, simp)
  next
    case (Inr rd)
    from round_short [OF L Inr] obtain st' where rd: "rd = Continue st'"
      and up: "unat (flz_i st) < unat (flz_i st')" and lt: "unat (flz_i st') < 13" by blast
    from up lt have "13 - unat (flz_i st') < 13 - unat (flz_i st)" by simp
    from less.hyps [OF this lt] Inr rd enter show ?thesis
      by (subst rounds.simps) simp
  qed
qed

text \<open>
  Claim C4. The claim is that on every slice shorter than 13 bytes \<open>FlzCompressLen\<close>
  reads no byte outside the slice and returns the literal-only cost. The code does the
  opposite: \<open>uint32(len(ib)) - 4 - 9\<close> wraps around, the scan loop is entered, and on every
  such slice, the empty one included, the function reads past the end and panics with an
  index out of range. The theorem states what the code does.
\<close>

theorem FlzCompressLen_short_input_panics:
  assumes "length ib < 13"
  shows "FlzCompressLen ib = Some (Inl IndexOutOfRange)"
proof -
  have "rounds ib (word_of_nat (length ib) - 4) flz_init = Some (Inl IndexOutOfRange)"
    by (rule rounds_short [OF assms]) (simp add: flz_init_def)
  then show ?thesis by (simp add: FlzCompressLen_def)
qed

theorem FlzCompressLen_short_input_panics_witness:
  "length ([] :: byte list) < 13 \<and> FlzCompressLen [] = Some (Inl IndexOutOfRange)
   \<and> length (replicate 12 0 :: byte list) < 13
   \<and> FlzCompressLen (replicate 12 0) = Some (Inl IndexOutOfRange)"
  using FlzCompressLen_short_input_panics [of "[]"]
    FlzCompressLen_short_input_panics [of "replicate 12 0"]
  by simp

subsection \<open>Slices of 13 bytes or more\<close>

text \<open>
  On a slice of at least 13 and fewer than \<open>2^32\<close> bytes the estimate reads inside the
  slice only, and returns. The table holds offsets not beyond the cursor, so a candidate
  at a distance below 8192 lies before the cursor; the cursor moves forward in every
  round, and stays at most at \<open>b\<close>.
\<close>

lemma byte_at_ok: "unat k < length ib \<Longrightarrow> \<exists>x. byte_at ib k = Inr x"
  by (simp add: byte_at_def)

lemma u32_ok:
  assumes "unat p + 3 < length ib" and "length ib < 4294967296"
  shows "\<exists>w. u32 ib p = Inr w"
proof -
  have k: "unat (p + k) < length ib" if "unat k \<le> 3" for k :: uint32
  proof -
    from that assms have "unat p + unat k < 4294967296" by simp
    then have "unat (p + k) = unat p + unat k" by (rule unat_add_small)
    with that assms show ?thesis by simp
  qed
  from assms have "unat p < length ib" by simp
  from byte_at_ok [OF this] obtain b0 where b0: "byte_at ib p = Inr b0" ..
  from byte_at_ok [OF k [of 1]] obtain b1 where b1: "byte_at ib (p + 1) = Inr b1" by auto
  from byte_at_ok [OF k [of 2]] obtain b2 where b2: "byte_at ib (p + 2) = Inr b2" by auto
  from byte_at_ok [OF k [of 3]] obtain b3 where b3: "byte_at ib (p + 3) = Inr b3" by auto
  show ?thesis by (simp add: u32_def b0 b1 b2 b3)
qed

lemma probe_table:
  assumes "probe ib st = Inr (st', s, c)"
  shows "flz_ht st' = (flz_ht st)[unat (hash s) := flz_i st]"
  using assms by (auto simp: probe_def Let_def split: sum.splits if_splits)

lemma probe_ok:
  assumes len: "length (flz_ht st) = 8192" and tab: "\<forall>x\<in>set (flz_ht st). x \<le> flz_i st"
    and room: "unat (flz_i st) + 3 < length ib" and L: "length ib < 4294967296"
  shows "\<exists>st' s c. probe ib st = Inr (st', s, c) \<and> flz_r st' \<le> flz_i st
           \<and> length (flz_ht st') = 8192 \<and> (\<forall>x\<in>set (flz_ht st'). x \<le> flz_i st)"
proof -
  from u32_ok [OF room L] obtain w where w: "u32 ib (flz_i st) = Inr w" ..
  let ?h = "unat (hash (w AND flz_m))"
  let ?r = "flz_ht st ! ?h"
  have h: "?h < length (flz_ht st)" using hash_in_table [of "w AND flz_m"] len by simp
  then have r: "?r \<le> flz_i st" using tab by simp
  have "\<exists>c. (if flz_i st - ?r < 8192
              then (case u32 ib ?r of Inl e \<Rightarrow> Inl e | Inr w' \<Rightarrow> Inr (w' AND flz_m))
              else Inr (flz_m + 1)) = Inr c"
  proof (cases "flz_i st - ?r < 8192")
    case True
    from r have "unat ?r \<le> unat (flz_i st)" by (simp add: word_le_nat_alt)
    with room have "unat ?r + 3 < length ib" by simp
    from u32_ok [OF this L] obtain w' where "u32 ib ?r = Inr w'" ..
    with True show ?thesis by simp
  next
    case False
    then show ?thesis by simp
  qed
  then obtain c where c: "(if flz_i st - ?r < 8192
              then (case u32 ib ?r of Inl e \<Rightarrow> Inl e | Inr w' \<Rightarrow> Inr (w' AND flz_m))
              else Inr (flz_m + 1)) = Inr c" ..
  have p: "probe ib st = Inr (st\<lparr>flz_r := ?r, flz_ht := (flz_ht st)[?h := flz_i st],
                                flz_d := flz_i st - ?r\<rparr>, w AND flz_m, c)"
    using w c by (cases "flz_i st - ?r < 8192") (auto simp: probe_def Let_def split: sum.splits)
  have "\<forall>x\<in>set ((flz_ht st)[?h := flz_i st]). x \<le> flz_i st"
    using tab set_update_subset_insert [of "flz_ht st" ?h "flz_i st"] by auto
  with p r len show ?thesis by simp
qed

lemma scan_ok:
  assumes "length ib < 4294967296" and "unat (b - 9) + 3 < length ib"
    and "length (flz_ht st) = 8192" and "\<forall>x\<in>set (flz_ht st). x \<le> flz_i st"
    and "flz_i st \<le> b - 9"
  shows "\<exists>st' s c. scan ib b st = Inr (st', s, c)
           \<and> length (flz_ht st') = 8192 \<and> (\<forall>x\<in>set (flz_ht st'). x \<le> flz_i st')
           \<and> flz_i st' \<le> b - 9
           \<and> (flz_i st' < b - 9 \<longrightarrow>
                (\<exists>p. flz_i st' = p + 1 \<and> p < b - 9 \<and> flz_r st' \<le> p \<and> flz_i st \<le> p))"
  using assms
proof (induction ib b st rule: scan.induct)
  case (1 ib b st)
  note L = "1.prems"(1) and margin = "1.prems"(2) and len = "1.prems"(3)
    and tab = "1.prems"(4) and le = "1.prems"(5)
  from le have "unat (flz_i st) \<le> unat (b - 9)" by (simp add: word_le_nat_alt)
  with margin have room: "unat (flz_i st) + 3 < length ib" by simp
  from probe_ok [OF len tab room L] obtain st1 s1 c1 where
    p: "probe ib st = Inr (st1, s1, c1)" and r1: "flz_r st1 \<le> flz_i st"
    and len1: "length (flz_ht st1) = 8192" and tab1: "\<forall>x\<in>set (flz_ht st1). x \<le> flz_i st"
    by blast
  from probe_Inr(1) [OF p] have i1: "flz_i st1 = flz_i st" .
  show ?case
  proof (cases "b - 9 \<le> flz_i st1")
    case True
    with p have "scan ib b st = Inr (st1, s1, c1)" by (subst scan.simps) simp
    moreover from True i1 le have "\<not> flz_i st1 < b - 9" by simp
    ultimately show ?thesis using len1 tab1 i1 le by auto
  next
    case far: False
    let ?st2 = "st1\<lparr>flz_i := flz_i st1 + 1\<rparr>"
    from far i1 have lt: "flz_i st < b - 9" by simp
    then have up: "flz_i st + 1 \<le> b - 9" by (rule inc_le)
    from lt have "unat (flz_i st + 1) = unat (flz_i st) + 1" by (rule unat_succ)
    then have mono: "flz_i st \<le> flz_i st + 1" by (simp add: word_le_nat_alt)
    have tab2: "\<forall>x\<in>set (flz_ht ?st2). x \<le> flz_i ?st2"
      using tab1 mono i1 by auto
    show ?thesis
    proof (cases "s1 = c1")
      case True
      with far p have "scan ib b st = Inr (?st2, s1, c1)" by (subst scan.simps) simp
      moreover have "\<exists>p. flz_i ?st2 = p + 1 \<and> p < b - 9 \<and> flz_r ?st2 \<le> p \<and> flz_i st \<le> p"
        using i1 lt r1 by (intro exI [of _ "flz_i st"]) simp
      ultimately show ?thesis using len1 tab2 up i1 by auto
    next
      case False
      with far p have e: "scan ib b st = scan ib b ?st2" by (subst scan.simps) simp
      have "flz_i ?st2 \<le> b - 9" using up i1 by simp
      from "1.IH" [OF p refl refl far refl False L margin _ tab2 this] len1
      obtain st' s c where sc: "scan ib b ?st2 = Inr (st', s, c)"
        and l': "length (flz_ht st') = 8192" and t': "\<forall>x\<in>set (flz_ht st'). x \<le> flz_i st'"
        and i': "flz_i st' \<le> b - 9"
        and m': "flz_i st' < b - 9 \<longrightarrow>
                (\<exists>p. flz_i st' = p + 1 \<and> p < b - 9 \<and> flz_r st' \<le> p \<and> flz_i ?st2 \<le> p)"
        by auto
      have "flz_i st' < b - 9 \<longrightarrow>
                (\<exists>p. flz_i st' = p + 1 \<and> p < b - 9 \<and> flz_r st' \<le> p \<and> flz_i st \<le> p)"
        using m' mono i1 by (auto intro: order_trans)
      with e sc l' t' i' show ?thesis by simp
    qed
  qed
qed

lemma extend_ok:
  assumes "length ib < 4294967296" and "unat b < length ib" and "r \<le> p"
    and "unat p + unat l0 \<le> unat b"
  shows "\<exists>l. extend ib b r p l0 = Inr l \<and> l0 \<le> l \<and> unat p + unat l \<le> unat b"
  using assms
proof (induction ib b r p l0 rule: extend.induct)
  case (1 ib b r p l0)
  note L = "1.prems"(1) and bL = "1.prems"(2) and rp = "1.prems"(3) and fit = "1.prems"(4)
  show ?case
  proof (cases "l0 < b - p")
    case False
    then have "extend ib b r p l0 = Inr l0" by (subst extend.simps) simp
    with fit show ?thesis by simp
  next
    case True
    from fit have "unat p \<le> unat b" by simp
    then have "p \<le> b" by (simp add: word_le_nat_alt)
    then have "unat (b - p) = unat b - unat p" by (rule unat_sub)
    with True have lt: "unat p + unat l0 < unat b" by (simp add: word_less_nat_alt)
    with bL L have "unat p + unat l0 < 4294967296" by simp
    then have "unat (p + l0) = unat p + unat l0" by (rule unat_add_small)
    with lt bL have "unat (p + l0) < length ib" by simp
    from byte_at_ok [OF this] obtain y where y: "byte_at ib (p + l0) = Inr y" ..
    from rp have rle: "unat r \<le> unat p" by (simp add: word_le_nat_alt)
    with lt bL L have "unat r + unat l0 < 4294967296" by simp
    then have "unat (r + l0) = unat r + unat l0" by (rule unat_add_small)
    with lt bL rle have "unat (r + l0) < length ib" by simp
    from byte_at_ok [OF this] obtain x where x: "byte_at ib (r + l0) = Inr x" ..
    show ?thesis
    proof (cases "x = y")
      case False
      with True x y have "extend ib b r p l0 = Inr l0" by (subst extend.simps) simp
      with fit show ?thesis by simp
    next
      case xy: True
      with True x y have e: "extend ib b r p l0 = extend ib b r p (l0 + 1)"
        by (subst extend.simps) simp
      from True have s1: "unat (l0 + 1) = unat l0 + 1" by (rule unat_succ)
      with lt have "unat p + unat (l0 + 1) \<le> unat b" by simp
      from "1.IH" [OF True x y xy L bL rp this] obtain l where
        "extend ib b r p (l0 + 1) = Inr l" "l0 + 1 \<le> l" "unat p + unat l \<le> unat b" by blast
      moreover from s1 have "l0 \<le> l0 + 1" by (simp add: word_le_nat_alt)
      ultimately show ?thesis using e by (auto intro: order_trans)
    qed
  qed
qed

lemma found_eval:
  assumes ex: "extend ib b (flz_r st1) (flz_i st1 - 1) 3 = Inr l"
    and w: "u32 ib (flz_i st1 - 1 + (l - 2)) = Inr w"
  shows "\<exists>st2. found ib b st1 = Inr st2 \<and> flz_i st2 = flz_i st1 - 1 + (l - 2) + 2
           \<and> flz_ht st2 = (flz_ht st1)
                 [unat (hash (w AND flz_m)) := flz_i st1 - 1 + (l - 2),
                  unat (hash (drop_bit 8 w)) := flz_i st1 - 1 + (l - 2) + 1]"
  using ex w
  by (cases "flz_a st1 < flz_i st1 - 1"; cases "l < 9") (simp_all add: found_def Let_def)

lemma found_ok:
  assumes L: "length ib < 4294967296" and b4: "unat b + 4 = length ib"
    and len: "length (flz_ht st1) = 8192" and tab: "\<forall>x\<in>set (flz_ht st1). x \<le> flz_i st1"
    and i1: "flz_i st1 = p + 1" and p: "p < b - 9" and r: "flz_r st1 \<le> p"
    and big: "13 \<le> length ib"
  shows "\<exists>st2. found ib b st1 = Inr st2
           \<and> length (flz_ht st2) = 8192 \<and> (\<forall>x\<in>set (flz_ht st2). x \<le> flz_i st2)
           \<and> flz_i st2 \<le> b \<and> unat p + 3 \<le> unat (flz_i st2)"
proof -
  have b9: "unat (b - 9) = unat b - 9"
  proof -
    from b4 big have "unat (9 :: uint32) \<le> unat b" by simp
    then have "9 \<le> b" by (simp only: word_le_nat_alt)
    then have "unat (b - 9) = unat b - unat (9 :: uint32)" by (rule unat_sub)
    then show ?thesis by simp
  qed
  from p have pb: "unat p + 9 < unat b" by (simp add: word_less_nat_alt b9)
  have pm: "flz_i st1 - 1 = p" using i1 by simp
  have bL: "unat b < length ib" using b4 by simp
  have "unat p + unat (3 :: uint32) \<le> unat b" using pb by simp
  from extend_ok [OF L bL r this] obtain l where ex: "extend ib b (flz_r st1) p 3 = Inr l"
    and l3: "3 \<le> l" and fit: "unat p + unat l \<le> unat b" by blast
  from l3 have ul3: "3 \<le> unat l" by (simp add: word_le_nat_alt)
  then have "2 \<le> l" by (simp add: word_le_nat_alt)
  then have "unat (l - 2) = unat l - unat (2 :: uint32)" by (rule unat_sub)
  then have l2: "unat (l - 2) = unat l - 2" by simp
  let ?q = "p + (l - 2)"
  have "unat p + unat (l - 2) < 4294967296" using fit bL L l2 by simp
  then have "unat ?q = unat p + unat (l - 2)" by (rule unat_add_small)
  with l2 ul3 have q: "unat ?q = unat p + unat l - 2" by simp
  with fit b4 ul3 have "unat ?q + 3 < length ib" by simp
  from u32_ok [OF this L] obtain w where w: "u32 ib ?q = Inr w" ..
  from found_eval [of ib b st1 l w] ex w pm obtain st2 where f: "found ib b st1 = Inr st2"
    and i2: "flz_i st2 = ?q + 2"
    and h2: "flz_ht st2 = (flz_ht st1)
                 [unat (hash (w AND flz_m)) := ?q, unat (hash (drop_bit 8 w)) := ?q + 1]"
    by auto
  have "unat ?q + unat (2 :: uint32) < 4294967296" using q fit bL L by simp
  then have "unat (?q + 2) = unat ?q + unat (2 :: uint32)" by (rule unat_add_small)
  with q ul3 have u2: "unat (flz_i st2) = unat p + unat l" by (simp add: i2)
  have "unat ?q + unat (1 :: uint32) < 4294967296" using q fit bL L by simp
  then have "unat (?q + 1) = unat ?q + unat (1 :: uint32)" by (rule unat_add_small)
  with q ul3 have u1: "unat (?q + 1) = unat p + unat l - 1" by simp
  have "unat p + unat (1 :: uint32) < 4294967296" using fit bL L by simp
  then have "unat (p + 1) = unat p + unat (1 :: uint32)" by (rule unat_add_small)
  then have up: "unat (flz_i st1) = unat p + 1" by (simp add: i1)
  have old: "x \<le> flz_i st2" if "x \<in> set (flz_ht st1)" for x
  proof -
    from tab that have "unat x \<le> unat (flz_i st1)" by (simp add: word_le_nat_alt)
    with up u2 ul3 show ?thesis by (simp add: word_le_nat_alt)
  qed
  have q2: "?q \<le> flz_i st2" using q u2 by (simp add: word_le_nat_alt)
  have q1: "?q + 1 \<le> flz_i st2" using u1 u2 by (simp add: word_le_nat_alt)
  have "x \<le> flz_i st2" if "x \<in> set (flz_ht st2)" for x
  proof -
    let ?h1 = "unat (hash (w AND flz_m))" and ?h2 = "unat (hash (drop_bit 8 w))"
    from that h2 have "x \<in> insert (?q + 1) (set ((flz_ht st1)[?h1 := ?q]))"
      using set_update_subset_insert [of "(flz_ht st1)[?h1 := ?q]" ?h2 "?q + 1"] by auto
    then have "x = ?q + 1 \<or> x = ?q \<or> x \<in> set (flz_ht st1)"
      using set_update_subset_insert [of "flz_ht st1" ?h1 ?q] by auto
    with old q1 q2 show ?thesis by auto
  qed
  moreover have "length (flz_ht st2) = 8192" using h2 len by simp
  moreover have "flz_i st2 \<le> b" using u2 fit by (simp add: word_le_nat_alt)
  moreover have "unat p + 3 \<le> unat (flz_i st2)" using u2 ul3 by simp
  ultimately show ?thesis using f by blast
qed

lemma rounds_ok:
  assumes L: "length ib < 4294967296" and b4: "unat b + 4 = length ib"
    and big: "13 \<le> length ib"
    and len: "length (flz_ht st) = 8192" and tab: "\<forall>x\<in>set (flz_ht st). x \<le> flz_i st"
  shows "\<exists>st'. rounds ib b st = Some (Inr st')"
  using len tab
proof (induction "length ib - unat (flz_i st)" arbitrary: st rule: less_induct)
  case less
  have b9: "unat (b - 9) = unat b - 9"
  proof -
    from b4 big have "unat (9 :: uint32) \<le> unat b" by simp
    then have "9 \<le> b" by (simp only: word_le_nat_alt)
    then have "unat (b - 9) = unat b - unat (9 :: uint32)" by (rule unat_sub)
    then show ?thesis by simp
  qed
  with b4 big have margin: "unat (b - 9) + 3 < length ib" by simp
  show ?case
  proof (cases "flz_i st < b - 9")
    case False
    then show ?thesis by (subst rounds.simps) simp
  next
    case enter: True
    then have "flz_i st \<le> b - 9" by simp
    from scan_ok [OF L margin less.prems this] obtain st1 s c where
      sc: "scan ib b st = Inr (st1, s, c)"
      and len1: "length (flz_ht st1) = 8192" and tab1: "\<forall>x\<in>set (flz_ht st1). x \<le> flz_i st1"
      and m: "flz_i st1 < b - 9 \<longrightarrow>
                (\<exists>p. flz_i st1 = p + 1 \<and> p < b - 9 \<and> flz_r st1 \<le> p \<and> flz_i st \<le> p)"
      by blast
    show ?thesis
    proof (cases "b - 9 \<le> flz_i st1")
      case True
      with sc have "round_body ib b st = Inr (Break st1)" by (simp add: round_body_def)
      with enter show ?thesis by (subst rounds.simps) simp
    next
      case False
      with m obtain p where i1: "flz_i st1 = p + 1" and p: "p < b - 9"
        and r: "flz_r st1 \<le> p" and sp: "flz_i st \<le> p" by auto
      from found_ok [OF L b4 len1 tab1 i1 p r big] obtain st2 where
        f: "found ib b st1 = Inr st2" and len2: "length (flz_ht st2) = 8192"
        and tab2: "\<forall>x\<in>set (flz_ht st2). x \<le> flz_i st2"
        and le2: "flz_i st2 \<le> b" and adv: "unat p + 3 \<le> unat (flz_i st2)" by blast
      from sc False f have rb: "round_body ib b st = Inr (Continue st2)"
        by (simp add: round_body_def)
      from sp have "unat (flz_i st) \<le> unat p" by (simp add: word_le_nat_alt)
      with adv have up: "unat (flz_i st) < unat (flz_i st2)" by simp
      from le2 have "unat (flz_i st2) \<le> unat b" by (simp add: word_le_nat_alt)
      with b4 have "unat (flz_i st2) < length ib" by simp
      with up have "length ib - unat (flz_i st2) < length ib - unat (flz_i st)" by simp
      from less.hyps [OF this len2 tab2] obtain st' where "rounds ib b st2 = Some (Inr st')" ..
      with enter rb show ?thesis by (subst rounds.simps) simp
    qed
  qed
qed

lemma FlzCompressLen_returns:
  assumes "13 \<le> length ib" and "length ib < 4294967296"
  shows "\<exists>k. FlzCompressLen ib = Some (Inr k)"
proof -
  let ?b = "word_of_nat (length ib) - 4 :: uint32"
  have n: "unat (word_of_nat (length ib) :: uint32) = length ib"
    using assms(2) by (simp add: unat_of_nat)
  then have "unat (4 :: uint32) \<le> unat (word_of_nat (length ib) :: uint32)"
    using assms(1) by simp
  then have "4 \<le> (word_of_nat (length ib) :: uint32)" by (simp only: word_le_nat_alt)
  then have "unat ?b = unat (word_of_nat (length ib) :: uint32) - unat (4 :: uint32)"
    by (rule unat_sub)
  with n assms(1) have b4: "unat ?b + 4 = length ib" by simp
  have "\<exists>st'. rounds ib ?b flz_init = Some (Inr st')"
    by (rule rounds_ok [OF assms(2) b4 assms(1)]) (simp_all add: flz_init_def)
  then show ?thesis by (auto simp: FlzCompressLen_def)
qed

subsection \<open>The distance rule\<close>

text \<open>
  Claim C6. A candidate whose previous offset is 8192 bytes or more before the cursor is
  never taken as a match. In every round of the inner loop the distance is the cursor
  minus the offset found in the table, and when it is not below 8192 the comparison value
  is \<open>m + 1\<close>, which no masked window equals. When the inner loop ends on such a round, it
  ended at the margin: the outer round is a \<open>break\<close> and charges nothing. And every round
  that does charge a match took a candidate at a distance below 8192.
\<close>

theorem far_candidate_never_matched:
  "(probe ib st = Inr (st', s, c) \<longrightarrow>
       flz_r st' = flz_ht st ! unat (hash s)
     \<and> flz_d st' = flz_i st - flz_r st'
     \<and> (8192 \<le> flz_d st' \<longrightarrow> c = flz_m + 1 \<and> s \<noteq> c))
   \<and> (scan ib b st = Inr (st1, s1, c1) \<longrightarrow> 8192 \<le> flz_d st1 \<longrightarrow>
       flz_d st1 = flz_i st1 - flz_r st1 \<and> c1 = flz_m + 1 \<and> s1 \<noteq> c1
     \<and> round_body ib b st = Inr (Break st1) \<and> flz_n st1 = flz_n st)
   \<and> (round_body ib b st = Inr (Continue st2) \<longrightarrow>
       (\<exists>st1 s1 c1. scan ib b st = Inr (st1, s1, c1) \<and> s1 = c1
           \<and> flz_d st1 = flz_i st1 - 1 - flz_r st1 \<and> flz_d st1 < 8192))"
proof (intro conjI impI)
  assume p: "probe ib st = Inr (st', s, c)"
  note pf = probe_Inr [OF p]
  show "flz_r st' = flz_ht st ! unat (hash s)" by (rule pf(4))
  show "flz_d st' = flz_i st - flz_r st'" by (rule pf(5))
  assume far: "8192 \<le> flz_d st'"
  then have "\<not> flz_d st' < 8192" by (simp add: not_less)
  then show w: "c = flz_m + 1" by (rule pf(8))
  from pf(6) obtain x where "s = x AND flz_m" by blast
  with w window_below_wide [of x] show "s \<noteq> c" by simp
next
  assume sc: "scan ib b st = Inr (st1, s1, c1)" and far: "8192 \<le> flz_d st1"
  from far have nl: "\<not> flz_d st1 < 8192" by (simp add: not_less)
  note sf = scan_Inr [OF sc]
  from sf nl show "flz_d st1 = flz_i st1 - flz_r st1" by blast
  from sf nl show w: "c1 = flz_m + 1" by blast
  from sf obtain x where "s1 = x AND flz_m" by blast
  with w window_below_wide [of x] show "s1 \<noteq> c1" by simp
  from sf nl have "b - 9 \<le> flz_i st1" by blast
  with sc show "round_body ib b st = Inr (Break st1)" by (simp add: round_body_def)
  from sf show "flz_n st1 = flz_n st" by blast
next
  assume "round_body ib b st = Inr (Continue st2)"
  from round_Continue [OF this] obtain st1 s1 c1 where sc: "scan ib b st = Inr (st1, s1, c1)"
    and lt: "flz_i st1 < b - 9" by blast
  from scan_Inr [OF sc] lt have "s1 = c1 \<and> flz_d st1 = flz_i st1 - 1 - flz_r st1 \<and> flz_d st1 < 8192"
    by blast
  with sc show "\<exists>st1 s1 c1. scan ib b st = Inr (st1, s1, c1) \<and> s1 = c1
           \<and> flz_d st1 = flz_i st1 - 1 - flz_r st1 \<and> flz_d st1 < 8192" by blast
qed

theorem far_candidate_never_matched_witness:
  "(\<exists>st'. probe (replicate 9100 7) (flz_init\<lparr>flz_i := 9087\<rparr>) = Inr (st', 0x070707, 0x1000000)
        \<and> scan (replicate 9100 7) 9096 (flz_init\<lparr>flz_i := 9087\<rparr>)
              = Inr (st', 0x070707, 0x1000000)
        \<and> flz_r st' = 0 \<and> flz_d st' = 9087 \<and> 8192 \<le> flz_d st'
        \<and> round_body (replicate 9100 7) 9096 (flz_init\<lparr>flz_i := 9087\<rparr>) = Inr (Break st'))
   \<and> (\<exists>st2. round_body (replicate 20 0) 16 flz_init = Inr (Continue st2))
   \<and> (\<exists>st1 s1. scan (replicate 20 0) 16 flz_init = Inr (st1, s1, s1) \<and> flz_d st1 < 8192)"
proof -
  let ?st = "flz_init\<lparr>flz_i := 9087\<rparr>"
  let ?st' = "flz_init\<lparr>flz_i := 9087, flz_r := 0,
                flz_ht := (replicate 8192 0)[unat (hash 0x070707) := 9087], flz_d := 9087\<rparr>"
  have p: "probe (replicate 9100 7) ?st = Inr (?st', 0x070707, 0x1000000)"
    by (simp add: flz_eval)
  have sc: "scan (replicate 9100 7) 9096 ?st = Inr (?st', 0x070707, 0x1000000)"
    by (simp add: flz_eval)
  have far: "8192 \<le> flz_d ?st'" by simp
  obtain st2 where c: "round_body (replicate 20 0) 16 flz_init = Inr (Continue st2)"
    by (simp add: flz_eval)
  from far_candidate_never_matched
         [of "replicate 9100 7" ?st ?st' "0x070707" "0x1000000" 9096 ?st' "0x070707" "0x1000000"]
       sc far
  have rb: "round_body (replicate 9100 7) 9096 ?st = Inr (Break ?st')" by blast
  have one: "\<exists>st'. probe (replicate 9100 7) ?st = Inr (st', 0x070707, 0x1000000)
        \<and> scan (replicate 9100 7) 9096 ?st = Inr (st', 0x070707, 0x1000000)
        \<and> flz_r st' = 0 \<and> flz_d st' = 9087 \<and> 8192 \<le> flz_d st'
        \<and> round_body (replicate 9100 7) 9096 ?st = Inr (Break st')"
    using p sc rb by (intro exI [of _ ?st']) simp
  from far_candidate_never_matched [of "replicate 20 0" flz_init _ _ _ 16 _ _ _ st2] c
  have three: "\<exists>st1 s1. scan (replicate 20 0) 16 flz_init = Inr (st1, s1, s1) \<and> flz_d st1 < 8192"
    by blast
  from one c three show ?thesis by blast
qed

subsection \<open>The cost rules\<close>

lemma literals_word: "literals r n = n + word_of_nat (literal_cost_spec (unat r))"
proof -
  have d: "word_of_nat (unat r div 32) = r div 32"
  proof -
    have "unat (r div 32) = unat r div 32" by (simp add: unat_div_distrib)
    then have "word_of_nat (unat r div 32) = (word_of_nat (unat (r div 32)) :: uint32)" by simp
    then show ?thesis by simp
  qed
  have m: "word_of_nat (unat r mod 32) = r mod 32"
  proof -
    have "unat (r mod 32) = unat r mod 32" by (simp add: unat_mod_distrib)
    then have "word_of_nat (unat r mod 32) = (word_of_nat (unat (r mod 32)) :: uint32)" by simp
    then show ?thesis by simp
  qed
  have z: "r mod 32 \<noteq> 0 \<longleftrightarrow> unat r mod 32 \<noteq> 0"
  proof -
    have "unat (r mod 32) = unat r mod 32" by (simp add: unat_mod_distrib)
    then show ?thesis by (metis unat_eq_zero)
  qed
  show ?thesis
    by (simp add: literals_def Let_def literal_cost_spec_def z d m)
qed

lemma match_word:
  assumes "3 \<le> (l :: uint32)"
  shows "(if l < 9 then n + 3 * (1 + (l - 3) div 262) - 1 else n + 3 * (1 + (l - 3) div 262))
           = n + word_of_nat (match_cost_spec (unat l))"
proof -
  have s: "unat (l - 3) = unat l - 3" using assms by (simp add: unat_sub)
  have d: "word_of_nat ((unat l - 3) div 262) = (l - 3) div 262"
  proof -
    have "unat ((l - 3) div 262) = (unat l - 3) div 262" by (simp add: unat_div_distrib s)
    then have "word_of_nat ((unat l - 3) div 262) = (word_of_nat (unat ((l - 3) div 262)) :: uint32)"
      by simp
    then show ?thesis by simp
  qed
  have c: "l < 9 \<longleftrightarrow> unat l < 9" by (simp add: word_less_nat_alt)
  show ?thesis
  proof (cases "l < 9")
    case True
    then have "match_cost_spec (unat l) = 3 * (1 + (unat l - 3) div 262) - 1"
      by (simp add: match_cost_spec_def c)
    moreover have "(word_of_nat (3 * (1 + (unat l - 3) div 262) - 1) :: uint32)
        = 3 * (1 + (l - 3) div 262) - 1"
      by (simp add: of_nat_diff d)
    ultimately show ?thesis using True by simp
  next
    case False
    then have "match_cost_spec (unat l) = 3 * (1 + (unat l - 3) div 262)"
      by (simp add: match_cost_spec_def c)
    then show ?thesis using False by (simp add: d)
  qed
qed

text \<open>
  Claim C7. The closure \<open>literals\<close> charges a run of \<open>r\<close> bytes the literal cost of the
  specification. A round that finds a match at the cursor \<open>i\<close> charges the literals from
  \<open>a\<close> to \<open>i\<close>, when \<open>i > a\<close>, and the match cost of the extended length \<open>l\<close>, which is at
  least 3; a round that breaks charges nothing; and the function ends by charging the
  literals from \<open>a\<close> to the end of the slice. The counter is a \<open>uint32\<close>, so the sums are
  modulo \<open>2^32\<close>.
\<close>

theorem charges_follow_cost_rules:
  "unat (literals r n) = (unat n + literal_cost_spec (unat r)) mod 2 ^ 32
   \<and> (round_body ib b st = Inr (Continue st2) \<longrightarrow>
        (\<exists>st1 s c l. scan ib b st = Inr (st1, s, c)
           \<and> extend ib b (flz_r st1) (flz_i st1 - 1) 3 = Inr l \<and> 3 \<le> unat l
           \<and> unat (flz_n st2) =
               (unat (flz_n st)
                + (if flz_a st < flz_i st1 - 1
                   then literal_cost_spec (unat (flz_i st1 - 1 - flz_a st)) else 0)
                + match_cost_spec (unat l)) mod 2 ^ 32))
   \<and> (round_body ib b st = Inr (Break st2) \<longrightarrow> flz_n st2 = flz_n st)
   \<and> (FlzCompressLen ib = Some (Inr k) \<longrightarrow>
        (\<exists>st'. rounds ib (word_of_nat (length ib) - 4) flz_init = Some (Inr st')
           \<and> unat k =
               (unat (flz_n st')
                + literal_cost_spec (unat (word_of_nat (length ib) - flz_a st'))) mod 2 ^ 32))"
proof (intro conjI impI)
  show "unat (literals r n) = (unat n + literal_cost_spec (unat r)) mod 2 ^ 32"
    by (simp only: literals_word unat_add_of_nat)
next
  assume "round_body ib b st = Inr (Continue st2)"
  from round_Continue [OF this] obtain st1 s c where sc: "scan ib b st = Inr (st1, s, c)"
    and f: "found ib b st1 = Inr st2" by blast
  from scan_Inr [OF sc] have n1: "flz_n st1 = flz_n st" and a1: "flz_a st1 = flz_a st"
    by simp_all
  from found_Inr [OF f] obtain l where ex: "extend ib b (flz_r st1) (flz_i st1 - 1) 3 = Inr l"
    and n2: "flz_n st2 =
               (let n1 = (if flz_a st1 < flz_i st1 - 1
                          then literals (flz_i st1 - 1 - flz_a st1) (flz_n st1)
                          else flz_n st1)
                in if l < 9 then n1 + 3 * (1 + (l - 3) div 262) - 1
                   else n1 + 3 * (1 + (l - 3) div 262))" by blast
  from extend_ge [OF ex] have l3: "3 \<le> l" .
  then have ul3: "3 \<le> unat l" by (simp add: word_le_nat_alt)
  let ?X = "if flz_a st < flz_i st1 - 1
            then literal_cost_spec (unat (flz_i st1 - 1 - flz_a st)) else 0"
  have "(if flz_a st1 < flz_i st1 - 1
         then literals (flz_i st1 - 1 - flz_a st1) (flz_n st1) else flz_n st1)
        = flz_n st + word_of_nat ?X"
    by (simp add: n1 a1 literals_word)
  with n2 have "flz_n st2 = flz_n st + word_of_nat ?X + word_of_nat (match_cost_spec (unat l))"
    by (simp only: Let_def match_word [OF l3])
  then have "flz_n st2 = flz_n st + word_of_nat (?X + match_cost_spec (unat l))"
    by (simp only: of_nat_add add.assoc)
  then have "unat (flz_n st2) = (unat (flz_n st) + (?X + match_cost_spec (unat l))) mod 2 ^ 32"
    by (simp only: unat_add_of_nat)
  then have "unat (flz_n st2) = (unat (flz_n st) + ?X + match_cost_spec (unat l)) mod 2 ^ 32"
    by (simp only: add.assoc)
  with sc ex ul3 show "\<exists>st1 s c l. scan ib b st = Inr (st1, s, c)
           \<and> extend ib b (flz_r st1) (flz_i st1 - 1) 3 = Inr l \<and> 3 \<le> unat l
           \<and> unat (flz_n st2) =
               (unat (flz_n st)
                + (if flz_a st < flz_i st1 - 1
                   then literal_cost_spec (unat (flz_i st1 - 1 - flz_a st)) else 0)
                + match_cost_spec (unat l)) mod 2 ^ 32" by blast
next
  assume "round_body ib b st = Inr (Break st2)"
  from round_Break [OF this] obtain s c where "scan ib b st = Inr (st2, s, c)" by blast
  from scan_Inr [OF this] show "flz_n st2 = flz_n st" by simp
next
  assume k: "FlzCompressLen ib = Some (Inr k)"
  let ?b = "word_of_nat (length ib) - 4 :: uint32"
  from k obtain st' where r: "rounds ib ?b flz_init = Some (Inr st')"
    and kk: "k = literals (?b + 4 - flz_a st') (flz_n st')"
    by (auto simp: FlzCompressLen_def Let_def split: option.splits sum.splits)
  have "?b + 4 - flz_a st' = word_of_nat (length ib) - flz_a st'" by simp
  with kk have "k = flz_n st' + word_of_nat (literal_cost_spec (unat (word_of_nat (length ib) - flz_a st')))"
    by (simp only: literals_word)
  then have "unat k = (unat (flz_n st')
                + literal_cost_spec (unat (word_of_nat (length ib) - flz_a st'))) mod 2 ^ 32"
    by (simp only: unat_add_of_nat)
  with r show "\<exists>st'. rounds ib ?b flz_init = Some (Inr st')
           \<and> unat k =
               (unat (flz_n st')
                + literal_cost_spec (unat (word_of_nat (length ib) - flz_a st'))) mod 2 ^ 32"
    by blast
qed

theorem charges_follow_cost_rules_witness:
  "(\<exists>st2. round_body (replicate 20 0) 16 flz_init = Inr (Continue st2) \<and> flz_n st2 = 6)
   \<and> (\<exists>st1 s c l. scan (replicate 20 0) 16 flz_init = Inr (st1, s, c)
          \<and> extend (replicate 20 0) 16 (flz_r st1) (flz_i st1 - 1) 3 = Inr l \<and> 3 \<le> unat l)
   \<and> (\<exists>st2. round_body [1, 2, 3, 4, 5, 6, 7, 8, 9, 10, 11, 12, 13, 14, 15, 16] 12 flz_init
             = Inr (Break st2) \<and> flz_n st2 = 0)
   \<and> FlzCompressLen (replicate 20 0) = Some (Inr 11)
   \<and> literal_cost_spec 2 = 3 \<and> match_cost_spec 14 = 3 \<and> literal_cost_spec 4 = 5"
proof -
  obtain st2 where c: "round_body (replicate 20 0) 16 flz_init = Inr (Continue st2)"
    and n2: "flz_n st2 = 6"
    by (simp add: flz_eval)
  from charges_follow_cost_rules [of _ _ "replicate 20 0" 16 flz_init st2] c
  have two: "\<exists>st1 s c l. scan (replicate 20 0) 16 flz_init = Inr (st1, s, c)
          \<and> extend (replicate 20 0) 16 (flz_r st1) (flz_i st1 - 1) 3 = Inr l \<and> 3 \<le> unat l"
    by blast
  have three: "\<exists>st2. round_body [1, 2, 3, 4, 5, 6, 7, 8, 9, 10, 11, 12, 13, 14, 15, 16] 12 flz_init
             = Inr (Break st2) \<and> flz_n st2 = 0"
    by (simp add: flz_eval)
  have four: "FlzCompressLen (replicate 20 0) = Some (Inr 11)"
    unfolding FlzCompressLen_def
    apply (subst rounds.simps)
    apply (simp add: flz_eval)
    apply (subst rounds.simps)
    apply (simp add: flz_eval)
    done
  have five: "literal_cost_spec 2 = 3 \<and> match_cost_spec 14 = 3 \<and> literal_cost_spec 4 = 5"
    by (simp add: literal_cost_spec_def match_cost_spec_def)
  from c n2 two three four five show ?thesis by blast
qed

subsection \<open>The fee formula\<close>

text \<open>
  Claim C1. With the feature gate on, whatever the payload, the oracle parameters and the
  upgrade flags, the calculator returns \<open>l1GasUsed = gas + overhead\<close> and
  \<open>fee = floor (l1GasUsed * l1BaseFee * scalar / 1000000)\<close> for the gas of the payload:
  the product is formed exactly (over the reals below) and rounded down once, by the
  final division. The gas, and with it the pair, exists for every payload before Eclipse,
  and under Eclipse for every payload of at least 13 (and fewer than \<open>2^32\<close>) bytes; where
  the length estimate panics, the calculator passes the panic on.
\<close>

theorem fee_is_floor_of_exact_product:
  "newL1CostFunc (config\<lparr>Optimism := True\<rparr>) l1BaseFee overhead scalar blockTime data =
     (case l1_gas (IsRegolith config blockTime) (IsEclipse config blockTime) data of
        None \<Rightarrow> None
      | Some (Inl e) \<Rightarrow> Some (Inl e)
      | Some (Inr gas) \<Rightarrow>
          Some (Inr (Some
            (\<lfloor>real_of_int (uint gas + overhead) * real_of_int l1BaseFee * real_of_int scalar
                / 1000000\<rfloor>,
             uint gas + overhead))))
   \<and> ((IsEclipse config blockTime \<longrightarrow> 13 \<le> length data \<and> length data < 2 ^ 32) \<longrightarrow>
        (\<exists>gas. l1_gas (IsRegolith config blockTime) (IsEclipse config blockTime) data
                 = Some (Inr gas)))"
proof (intro conjI impI)
  show "newL1CostFunc (config\<lparr>Optimism := True\<rparr>) l1BaseFee overhead scalar blockTime data =
     (case l1_gas (IsRegolith config blockTime) (IsEclipse config blockTime) data of
        None \<Rightarrow> None
      | Some (Inl e) \<Rightarrow> Some (Inl e)
      | Some (Inr gas) \<Rightarrow>
          Some (Inr (Some
            (\<lfloor>real_of_int (uint gas + overhead) * real_of_int l1BaseFee * real_of_int scalar
                / 1000000\<rfloor>,
             uint gas + overhead))))"
    by (simp add: newL1CostFunc_def big_Div_floor split: option.splits sum.splits)
next
  assume dom: "IsEclipse config blockTime \<longrightarrow> 13 \<le> length data \<and> length data < 2 ^ 32"
  show "\<exists>gas. l1_gas (IsRegolith config blockTime) (IsEclipse config blockTime) data
                 = Some (Inr gas)"
  proof (cases "IsEclipse config blockTime")
    case True
    with dom have "13 \<le> length data" and "length data < 4294967296" by simp_all
    from FlzCompressLen_returns [OF this] True show ?thesis by (auto simp: l1_gas_def)
  next
    case False
    then show ?thesis by (simp add: l1_gas_def Let_def split: prod.splits)
  qed
qed

theorem fee_is_floor_of_exact_product_witness:
  "13 \<le> length (replicate 13 0 :: byte list) \<and> length (replicate 13 0 :: byte list) < 2 ^ 32
   \<and> l1_gas True True (replicate 13 0) = Some (Inr 224)
   \<and> newL1CostFunc \<lparr>Optimism = True, IsRegolith = (\<lambda>t. True), IsEclipse = (\<lambda>t. True)\<rparr>
         3 10 333333 0 (replicate 13 0) = Some (Inr (Some (233, 234)))"
proof -
  have g: "l1_gas True True (replicate 13 0) = Some (Inr 224)"
    unfolding l1_gas_def FlzCompressLen_def
    by (subst rounds.simps) (simp add: flz_eval TxDataNonZeroGasEIP2028_def)
  from fee_is_floor_of_exact_product
         [of "\<lparr>Optimism = True, IsRegolith = (\<lambda>t. True), IsEclipse = (\<lambda>t. True)\<rparr>"
             3 10 333333 0 "replicate 13 0"] g
  show ?thesis by simp
qed

subsection \<open>Eclipse\<close>

text \<open>
  Claim C2. Once Eclipse is active the gas of a payload is \<open>FlzCompressLen\<close> of it times
  16, whatever the Regolith flag, and the calculator's result is the same with Regolith
  active and inactive. For a payload of at least 13 (and fewer than \<open>2^32\<close>) bytes the
  estimate and the gas exist, and the product does not overflow.
\<close>

theorem eclipse_gas_ignores_regolith:
  "l1_gas isRegolith True data =
     (case FlzCompressLen data of
        None \<Rightarrow> None
      | Some (Inl e) \<Rightarrow> Some (Inl e)
      | Some (Inr k) \<Rightarrow> Some (Inr (ucast k * 16)))
   \<and> newL1CostFunc (config\<lparr>IsEclipse := \<lambda>t. True, IsRegolith := \<lambda>t. True\<rparr>)
         l1BaseFee overhead scalar blockTime data =
     newL1CostFunc (config\<lparr>IsEclipse := \<lambda>t. True, IsRegolith := \<lambda>t. False\<rparr>)
         l1BaseFee overhead scalar blockTime data
   \<and> (13 \<le> length data \<and> length data < 2 ^ 32 \<longrightarrow>
        (\<exists>k g. FlzCompressLen data = Some (Inr k)
           \<and> l1_gas isRegolith True data = Some (Inr g) \<and> unat g = unat k * 16))"
proof (intro conjI impI)
  show "l1_gas isRegolith True data =
     (case FlzCompressLen data of
        None \<Rightarrow> None
      | Some (Inl e) \<Rightarrow> Some (Inl e)
      | Some (Inr k) \<Rightarrow> Some (Inr (ucast k * 16)))"
    by (simp add: l1_gas_def TxDataNonZeroGasEIP2028_def split: option.splits sum.splits)
  show "newL1CostFunc (config\<lparr>IsEclipse := \<lambda>t. True, IsRegolith := \<lambda>t. True\<rparr>)
         l1BaseFee overhead scalar blockTime data =
     newL1CostFunc (config\<lparr>IsEclipse := \<lambda>t. True, IsRegolith := \<lambda>t. False\<rparr>)
         l1BaseFee overhead scalar blockTime data"
    by (simp add: l1_gas_def newL1CostFunc_def)
next
  assume "13 \<le> length data \<and> length data < 2 ^ 32"
  then have "13 \<le> length data" and "length data < 4294967296" by simp_all
  from FlzCompressLen_returns [OF this] obtain k where k: "FlzCompressLen data = Some (Inr k)" ..
  have k32: "unat k < 4294967296" using unsigned_less [of k, where ?'a = nat] by simp
  then have "unat k < 2 ^ 64" by simp
  then have "take_bit 64 (unat k) = unat k" by (rule take_bit_nat_eq_self)
  then have uc: "unat (ucast k :: uint64) = unat k" by (simp add: unsigned_ucast_eq)
  moreover have "unat k < 4294967296" using unsigned_less [of k, where ?'a = nat] by simp
  ultimately have "unat (ucast k :: uint64) * unat (16 :: uint64) < 2 ^ LENGTH(64)" by simp
  then have "unat ((ucast k :: uint64) * 16) = unat (ucast k :: uint64) * unat (16 :: uint64)"
    by (simp only: unat_mult_lem)
  then have "unat ((ucast k :: uint64) * 16) = unat k * 16"
    by (simp add: uc)
  with k show "\<exists>k g. FlzCompressLen data = Some (Inr k)
           \<and> l1_gas isRegolith True data = Some (Inr g) \<and> unat g = unat k * 16"
    by (simp add: l1_gas_def TxDataNonZeroGasEIP2028_def)
qed

theorem eclipse_gas_ignores_regolith_witness:
  "13 \<le> length (replicate 13 1 :: byte list) \<and> length (replicate 13 1 :: byte list) < 2 ^ 32
   \<and> FlzCompressLen (replicate 13 1) = Some (Inr 14)
   \<and> (\<exists>g. l1_gas False True (replicate 13 1) = Some (Inr g) \<and> unat g = 14 * 16)"
proof -
  have k: "FlzCompressLen (replicate 13 1) = Some (Inr 14)"
    unfolding FlzCompressLen_def
    by (subst rounds.simps) (simp add: flz_eval)
  from eclipse_gas_ignores_regolith [of False "replicate 13 1"] k
  show ?thesis by simp
qed

end
